theory Spec2Isabelle
  imports Complex_Main
begin

section \<open>The MultiArray container (multiarray.h)\<close>

text \<open>
  \<^verbatim>\<open>MultiArray<double, 2>\<close> keeps its two extents and one flat heap array; the element
  \<^verbatim>\<open>a[w][j]\<close> is \<^verbatim>\<open>array[w * multiplier[0] + j]\<close> with \<^verbatim>\<open>multiplier[0] = extent[1]\<close>.
  A value of this type is rectangular by construction.
\<close>

record multiarray2 =
  extent0 :: nat
  extent1 :: nat
  array :: "real list"

definition at2 :: "multiarray2 \<Rightarrow> nat \<Rightarrow> nat \<Rightarrow> real" where
  "at2 a w j = array a ! (w * extent1 a + j)"

definition put2 :: "multiarray2 \<Rightarrow> nat \<Rightarrow> nat \<Rightarrow> real \<Rightarrow> multiarray2" where
  "put2 a w j v = a\<lparr>array := (array a)[w * extent1 a + j := v]\<rparr>"

text \<open>The variadic constructor \<^verbatim>\<open>MultiArray(extent, ...)\<close> allocates and clears the cells
  with \<^verbatim>\<open>memset(array, 0, ...)\<close>.\<close>

definition MultiArray2 :: "nat \<Rightarrow> nat \<Rightarrow> multiarray2" where
  "MultiArray2 e0 e1 = \<lparr>extent0 = e0, extent1 = e1, array = replicate (e0 * e1) 0\<rparr>"

text \<open>The one-dimensional constructor \<^verbatim>\<open>MultiArray<T, 1>(extent)\<close> is
  \<^verbatim>\<open>array = new T[extent]\<close> and nothing else: the cells are not written. What they hold
  is whatever the allocator hands out; it is a parameter \<open>junk\<close> of the model.\<close>

definition MultiArray1 :: "nat \<Rightarrow> (nat \<Rightarrow> 'a) \<Rightarrow> 'a list" where
  "MultiArray1 extent junk = map junk [0..<extent]"

text \<open>The extents are \<^verbatim>\<open>uint32_t\<close>, and the flat array has one cell per index pair.\<close>

definition UINT32_MAX_VALUE :: nat where
  "UINT32_MAX_VALUE = 4294967295"

definition wf_multiarray2 :: "multiarray2 \<Rightarrow> bool" where
  "wf_multiarray2 a \<longleftrightarrow>
     extent0 a \<le> UINT32_MAX_VALUE \<and> extent1 a \<le> UINT32_MAX_VALUE \<and>
     length (array a) = extent0 a * extent1 a"

section \<open>The solver state (class Hungarian)\<close>

definition UNASSIGNED :: nat where
  "UNASSIGNED = 4294967295"

text \<open>\<^verbatim>\<open>POSITIVE_INFINITY = std::numeric_limits<double>::max()\<close>, the largest finite double
  \<open>(2 - 2\<^sup>-\<^sup>5\<^sup>2) * 2\<^sup>1\<^sup>0\<^sup>2\<^sup>3\<close>. Cost values are modelled as real numbers.\<close>

definition POSITIVE_INFINITY :: real where
  "POSITIVE_INFINITY = 2 ^ 1024 - 2 ^ 971"

record hungarian =
  rows :: nat
  cols :: nat
  dim :: nat
  cost_matrix :: multiarray2
  label_by_worker :: "real list"
  label_by_job :: "real list"
  min_slack_by_job :: "real list"
  min_slack_worker_by_job :: "nat list"
  match_job_by_worker :: "nat list"
  match_worker_by_job :: "nat list"
  parent_worker_by_committed_job :: "nat list"
  committed_workers :: "bool list"

text \<open>The contents of the storage that the constructors leave unwritten: one field for each
  one-dimensional array of the class, and one for the local array \<^verbatim>\<open>min\<close> of \<^verbatim>\<open>reduce\<close>.\<close>

record indeterminate =
  ind_label_by_worker :: "nat \<Rightarrow> real"
  ind_label_by_job :: "nat \<Rightarrow> real"
  ind_min_slack_by_job :: "nat \<Rightarrow> real"
  ind_min_slack_worker_by_job :: "nat \<Rightarrow> nat"
  ind_match_job_by_worker :: "nat \<Rightarrow> nat"
  ind_match_worker_by_job :: "nat \<Rightarrow> nat"
  ind_parent_worker_by_committed_job :: "nat \<Rightarrow> nat"
  ind_committed_workers :: "nat \<Rightarrow> bool"
  ind_reduce_min :: "nat \<Rightarrow> real"

text \<open>An index outside an array is undefined behaviour in the source; in the model the run
  stops with a fault. Each \<^verbatim>\<open>while\<close> loop may run \<open>fuel\<close> times; a loop that has used up
  its fuel yields \<open>None\<close>. Every loop starts with the full amount \<open>fuel0\<close>.\<close>

datatype fault = IndexOutOfRange

subsection \<open>Constructor\<close>

definition Hungarian :: "multiarray2 \<Rightarrow> indeterminate \<Rightarrow> hungarian" where
  "Hungarian cm ind =
    (let rows0 = extent0 cm;
         cols0 = extent1 cm;
         dim0 = max rows0 cols0;
         mjw0 = MultiArray1 dim0 (ind_match_job_by_worker ind);
         mwj0 = MultiArray1 dim0 (ind_match_worker_by_job ind)
     in \<lparr>rows = rows0, cols = cols0, dim = dim0,
         cost_matrix =
           fold (\<lambda>w c.
                  if w < rows0
                  then fold (\<lambda>j c. put2 c w j 0) [cols0..<dim0]
                         (fold (\<lambda>j c. put2 c w j (at2 cm w j)) [0..<cols0] c)
                  else fold (\<lambda>j c. put2 c w j 0) [0..<dim0] c)
             [0..<dim0] (MultiArray2 dim0 dim0),
         label_by_worker = MultiArray1 dim0 (ind_label_by_worker ind),
         label_by_job = MultiArray1 dim0 (ind_label_by_job ind),
         min_slack_by_job = MultiArray1 dim0 (ind_min_slack_by_job ind),
         min_slack_worker_by_job = MultiArray1 dim0 (ind_min_slack_worker_by_job ind),
         match_job_by_worker = fold (\<lambda>w a. a[w := UNASSIGNED]) [0..<length mjw0] mjw0,
         match_worker_by_job = fold (\<lambda>j a. a[j := UNASSIGNED]) [0..<length mwj0] mwj0,
         parent_worker_by_committed_job =
           MultiArray1 dim0 (ind_parent_worker_by_committed_job ind),
         committed_workers = MultiArray1 dim0 (ind_committed_workers ind)\<rparr>)"

subsection \<open>reduce\<close>

definition reduce :: "(nat \<Rightarrow> real) \<Rightarrow> hungarian \<Rightarrow> hungarian" where
  "reduce junk s =
    (let n = dim s;
         c1 = fold (\<lambda>w c.
                (let mn = fold (\<lambda>j mn. if at2 c w j < mn then at2 c w j else mn)
                            [0..<n] POSITIVE_INFINITY
                 in fold (\<lambda>j c. put2 c w j (at2 c w j - mn)) [0..<n] c))
              [0..<n] (cost_matrix s);
         min0 = fold (\<lambda>j m. m[j := POSITIVE_INFINITY]) [0..<n] (MultiArray1 n junk);
         min1 = fold (\<lambda>w m.
                  fold (\<lambda>j m. if at2 c1 w j < m ! j then m[j := at2 c1 w j] else m) [0..<n] m)
                [0..<n] min0;
         c2 = fold (\<lambda>w c. fold (\<lambda>j c. put2 c w j (at2 c w j - min1 ! j)) [0..<n] c)
                [0..<n] c1
     in s\<lparr>cost_matrix := c2\<rparr>)"

subsection \<open>compute\_initial\_feasible\_solution\<close>

definition compute_initial_feasible_solution :: "hungarian \<Rightarrow> hungarian" where
  "compute_initial_feasible_solution s =
    (let n = dim s;
         l0 = fold (\<lambda>j l. l[j := POSITIVE_INFINITY]) [0..<n] (label_by_job s);
         l1 = fold (\<lambda>w l.
                fold (\<lambda>j l. if at2 (cost_matrix s) w j < l ! j
                              then l[j := at2 (cost_matrix s) w j] else l) [0..<n] l)
              [0..<n] l0
     in s\<lparr>label_by_job := l1\<rparr>)"

subsection \<open>match, greedy\_match, fetch\_unmatched\_worker\<close>

text \<open>The expression \<^verbatim>\<open>cost_matrix_[w][j] - label_by_worker_[w] - label_by_job_[j]\<close>, which
  the source writes out in three places.\<close>

definition slack :: "hungarian \<Rightarrow> nat \<Rightarrow> nat \<Rightarrow> real" where
  "slack s w j = at2 (cost_matrix s) w j - label_by_worker s ! w - label_by_job s ! j"

definition match :: "nat \<Rightarrow> nat \<Rightarrow> hungarian \<Rightarrow> hungarian" where
  "match w j s =
     s\<lparr>match_job_by_worker := (match_job_by_worker s)[w := j],
       match_worker_by_job := (match_worker_by_job s)[j := w]\<rparr>"

definition greedy_match :: "hungarian \<Rightarrow> hungarian" where
  "greedy_match s =
     fold (\<lambda>w s.
       fold (\<lambda>j s.
         if match_job_by_worker s ! w = UNASSIGNED
            \<and> match_worker_by_job s ! j = UNASSIGNED
            \<and> slack s w j = 0
         then match w j s else s) [0..<dim s] s) [0..<dim s] s"

function fetch_from :: "hungarian \<Rightarrow> nat \<Rightarrow> nat" where
  "fetch_from s w =
     (if w < dim s
      then (if match_job_by_worker s ! w = UNASSIGNED then w else fetch_from s (w + 1))
      else w)"
  by pat_completeness auto
termination
  by (relation "measure (\<lambda>(s, w). dim s - w)") auto

declare fetch_from.simps [simp del]

definition fetch_unmatched_worker :: "hungarian \<Rightarrow> nat" where
  "fetch_unmatched_worker s = fetch_from s 0"

subsection \<open>initialize\_phase, update\_labeling\<close>

definition initialize_phase :: "nat \<Rightarrow> hungarian \<Rightarrow> hungarian" where
  "initialize_phase w s =
    (let n = dim s;
         cw0 = replicate (length (committed_workers s)) False;
         p = fold (\<lambda>j a. a[j := UNASSIGNED]) [0..<n] (parent_worker_by_committed_job s);
         cw = cw0[w := True];
         s1 = s\<lparr>parent_worker_by_committed_job := p, committed_workers := cw\<rparr>
     in fold (\<lambda>j s. s\<lparr>min_slack_by_job := (min_slack_by_job s)[j := slack s w j],
                         min_slack_worker_by_job := (min_slack_worker_by_job s)[j := w]\<rparr>)
          [0..<n] s1)"

definition update_labeling :: "real \<Rightarrow> hungarian \<Rightarrow> hungarian" where
  "update_labeling sl s =
    (let n = dim s;
         s1 = fold (\<lambda>w s. if committed_workers s ! w
                           then s\<lparr>label_by_worker :=
                                     (label_by_worker s)[w := label_by_worker s ! w + sl]\<rparr>
                           else s) [0..<n] s
     in fold (\<lambda>j s. if parent_worker_by_committed_job s ! j \<noteq> UNASSIGNED
                     then s\<lparr>label_by_job := (label_by_job s)[j := label_by_job s ! j - sl]\<rparr>
                     else s\<lparr>min_slack_by_job :=
                               (min_slack_by_job s)[j := min_slack_by_job s ! j - sl]\<rparr>)
          [0..<n] s1)"

subsection \<open>execute\_phase\<close>

text \<open>The inner \<^verbatim>\<open>while (true)\<close> that replays the augmenting path. \<open>augment_step\<close> is one
  pass of its body up to the test of \<^verbatim>\<open>committed_job\<close>; it returns the new state and the
  job that was matched to \<^verbatim>\<open>parent_worker\<close> before (\<^verbatim>\<open>temp\<close>).\<close>

definition augment_step :: "hungarian \<Rightarrow> nat \<Rightarrow> nat \<Rightarrow> hungarian \<times> nat" where
  "augment_step s parent_worker committed_job =
     (let temp = match_job_by_worker s ! parent_worker
      in (match parent_worker committed_job s, temp))"

fun augment :: "nat \<Rightarrow> hungarian \<Rightarrow> nat \<Rightarrow> nat \<Rightarrow> (fault + hungarian) option" where
  "augment 0 s parent_worker committed_job = None"
| "augment (Suc fuel) s parent_worker committed_job =
     (if parent_worker < length (match_job_by_worker s)
         \<and> committed_job < length (match_worker_by_job s)
      then (case augment_step s parent_worker committed_job of
              (s', temp) \<Rightarrow>
                if temp = UNASSIGNED then Some (Inr s')
                else if temp < length (parent_worker_by_committed_job s')
                then augment fuel s' (parent_worker_by_committed_job s' ! temp) temp
                else Some (Inl IndexOutOfRange))
      else Some (Inl IndexOutOfRange))"

text \<open>The scan for the uncommitted job of least recorded slack: the triple is
  \<^verbatim>\<open>(min_slack_value, min_slack_worker, min_slack_job)\<close>.\<close>

definition select_min_slack :: "hungarian \<Rightarrow> real \<times> nat \<times> nat" where
  "select_min_slack s =
     fold (\<lambda>j (v, w, jm).
            if parent_worker_by_committed_job s ! j = UNASSIGNED \<and> min_slack_by_job s ! j < v
            then (min_slack_by_job s ! j, min_slack_worker_by_job s ! j, j)
            else (v, w, jm))
       [0..<dim s] (POSITIVE_INFINITY, UNASSIGNED, UNASSIGNED)"

text \<open>The \<^verbatim>\<open>else\<close> branch: the worker matched to the newly committed job joins the
  committed workers, and the slack records of the uncommitted jobs are lowered.\<close>

definition commit_worker :: "nat \<Rightarrow> hungarian \<Rightarrow> hungarian" where
  "commit_worker worker s =
     fold (\<lambda>j s.
            if parent_worker_by_committed_job s ! j = UNASSIGNED
            then (let sl = slack s worker j
                  in if min_slack_by_job s ! j > sl
                     then s\<lparr>min_slack_by_job := (min_slack_by_job s)[j := sl],
                            min_slack_worker_by_job := (min_slack_worker_by_job s)[j := worker]\<rparr>
                     else s)
            else s)
       [0..<dim s] (s\<lparr>committed_workers := (committed_workers s)[worker := True]\<rparr>)"

fun execute_phase :: "nat \<Rightarrow> nat \<Rightarrow> hungarian \<Rightarrow> (fault + hungarian) option" where
  "execute_phase fuel0 0 s = None"
| "execute_phase fuel0 (Suc fuel) s =
     (case select_min_slack s of
        (min_slack_value, min_slack_worker, min_slack_job) \<Rightarrow>
          (let s1 = (if min_slack_value > 0 then update_labeling min_slack_value s else s)
           in if min_slack_job < length (parent_worker_by_committed_job s1)
              then (let s2 = s1\<lparr>parent_worker_by_committed_job :=
                                  (parent_worker_by_committed_job s1)
                                    [min_slack_job := min_slack_worker]\<rparr>
                    in if match_worker_by_job s2 ! min_slack_job = UNASSIGNED
                       then augment fuel0 s2
                              (parent_worker_by_committed_job s2 ! min_slack_job) min_slack_job
                       else (let worker = match_worker_by_job s2 ! min_slack_job
                             in if worker < length (committed_workers s2)
                                then execute_phase fuel0 fuel (commit_worker worker s2)
                                else Some (Inl IndexOutOfRange)))
              else Some (Inl IndexOutOfRange)))"

subsection \<open>execute\<close>

fun phases :: "nat \<Rightarrow> nat \<Rightarrow> hungarian \<Rightarrow> (fault + hungarian) option" where
  "phases fuel0 0 s = None"
| "phases fuel0 (Suc fuel) s =
     (let w = fetch_unmatched_worker s
      in if w < dim s
         then (case execute_phase fuel0 fuel0 (initialize_phase w s) of
                 None \<Rightarrow> None
               | Some (Inl e) \<Rightarrow> Some (Inl e)
               | Some (Inr s') \<Rightarrow> phases fuel0 fuel s')
         else Some (Inr s))"

definition prepare :: "(nat \<Rightarrow> real) \<Rightarrow> hungarian \<Rightarrow> hungarian" where
  "prepare junk s = greedy_match (compute_initial_feasible_solution (reduce junk s))"

definition extract_result :: "hungarian \<Rightarrow> nat list" where
  "extract_result s =
     fold (\<lambda>w r. if r ! w \<ge> cols s then r[w := UNASSIGNED] else r) [0..<rows s]
       (take (rows s) (match_job_by_worker s))"

definition execute :: "nat \<Rightarrow> indeterminate \<Rightarrow> hungarian \<Rightarrow> (fault + nat list) option" where
  "execute fuel ind s =
     (case phases fuel fuel (prepare (ind_reduce_min ind) s) of
        None \<Rightarrow> None
      | Some (Inl e) \<Rightarrow> Some (Inl e)
      | Some (Inr s') \<Rightarrow> Some (Inr (extract_result s')))"

section \<open>Specification vocabulary\<close>

subsection \<open>Shapes\<close>

definition wf_matrix :: "nat \<Rightarrow> multiarray2 \<Rightarrow> bool" where
  "wf_matrix n a \<longleftrightarrow> extent0 a = n \<and> extent1 a = n \<and> length (array a) = n * n"

definition wf_state :: "hungarian \<Rightarrow> bool" where
  "wf_state s \<longleftrightarrow>
     max (rows s) (cols s) = dim s \<and> dim s \<le> UNASSIGNED \<and>
     wf_matrix (dim s) (cost_matrix s) \<and>
     length (label_by_worker s) = dim s \<and> length (label_by_job s) = dim s \<and>
     length (min_slack_by_job s) = dim s \<and> length (min_slack_worker_by_job s) = dim s \<and>
     length (match_job_by_worker s) = dim s \<and> length (match_worker_by_job s) = dim s \<and>
     length (parent_worker_by_committed_job s) = dim s \<and> length (committed_workers s) = dim s"

text \<open>The working matrix the constructor builds: the input in the top-left block, zero in
  the padding.\<close>

definition padded :: "multiarray2 \<Rightarrow> nat \<Rightarrow> nat \<Rightarrow> real" where
  "padded cm w j = (if w < extent0 cm \<and> j < extent1 cm then at2 cm w j else 0)"

subsection \<open>Least elements as the scans compute them\<close>

text \<open>A scan \<^verbatim>\<open>if (x < min) min = x\<close> started at \<open>init\<close>.\<close>

definition least_from :: "(nat \<Rightarrow> real) \<Rightarrow> nat \<Rightarrow> real \<Rightarrow> real" where
  "least_from f n init = fold (\<lambda>x mn. if f x < mn then f x else mn) [0..<n] init"

definition row_least :: "multiarray2 \<Rightarrow> nat \<Rightarrow> nat \<Rightarrow> real" where
  "row_least c n w = least_from (at2 c w) n POSITIVE_INFINITY"

definition row_reduced :: "multiarray2 \<Rightarrow> nat \<Rightarrow> nat \<Rightarrow> nat \<Rightarrow> real" where
  "row_reduced c n w j = at2 c w j - row_least c n w"

definition col_least :: "multiarray2 \<Rightarrow> nat \<Rightarrow> nat \<Rightarrow> real" where
  "col_least c n j = least_from (\<lambda>w. row_reduced c n w j) n POSITIVE_INFINITY"

subsection \<open>Magnitude of the costs\<close>



subsection \<open>Concrete inputs\<close>

text \<open>Storage that happens to hold zeros, and storage in which the cell that becomes
  \<^verbatim>\<open>label_by_worker_[1]\<close> holds \<open>1\<close>.\<close>

definition zero_storage :: indeterminate where
  "zero_storage =
     \<lparr>ind_label_by_worker = (\<lambda>_. 0), ind_label_by_job = (\<lambda>_. 0),
      ind_min_slack_by_job = (\<lambda>_. 0), ind_min_slack_worker_by_job = (\<lambda>_. 0),
      ind_match_job_by_worker = (\<lambda>_. 0), ind_match_worker_by_job = (\<lambda>_. 0),
      ind_parent_worker_by_committed_job = (\<lambda>_. 0), ind_committed_workers = (\<lambda>_. False),
      ind_reduce_min = (\<lambda>_. 0)\<rparr>"

definition stale_storage :: indeterminate where
  "stale_storage = zero_storage\<lparr>ind_label_by_worker := (\<lambda>w. if w = 1 then 1 else 0)\<rparr>"

definition matrix_of :: "nat \<Rightarrow> nat \<Rightarrow> real list \<Rightarrow> multiarray2" where
  "matrix_of r c xs = \<lparr>extent0 = r, extent1 = c, array = xs\<rparr>"

subsection \<open>The matching\<close>

definition matching_inv :: "hungarian \<Rightarrow> bool" where
  "matching_inv s \<longleftrightarrow>
     (\<forall>w<dim s. match_job_by_worker s ! w \<noteq> UNASSIGNED \<longrightarrow>
        match_job_by_worker s ! w < dim s \<and>
        match_worker_by_job s ! (match_job_by_worker s ! w) = w) \<and>
     (\<forall>j<dim s. match_worker_by_job s ! j \<noteq> UNASSIGNED \<longrightarrow>
        match_worker_by_job s ! j < dim s \<and>
        match_job_by_worker s ! (match_worker_by_job s ! j) = j)"

text \<open>During the walk the job \<open>cj\<close> about to be matched is the one exception: no worker
  points to it, and its own entry may be stale.\<close>

definition walk_inv :: "hungarian \<Rightarrow> nat \<Rightarrow> bool" where
  "walk_inv s cj \<longleftrightarrow>
     cj < dim s \<and>
     (\<forall>w<dim s. match_job_by_worker s ! w \<noteq> UNASSIGNED \<longrightarrow>
        match_job_by_worker s ! w < dim s \<and> match_job_by_worker s ! w \<noteq> cj \<and>
        match_worker_by_job s ! (match_job_by_worker s ! w) = w) \<and>
     (\<forall>j<dim s. j \<noteq> cj \<longrightarrow> match_worker_by_job s ! j \<noteq> UNASSIGNED \<longrightarrow>
        match_worker_by_job s ! j < dim s \<and>
        match_job_by_worker s ! (match_worker_by_job s ! j) = j)"

definition matching_size :: "hungarian \<Rightarrow> nat" where
  "matching_size s = length (filter (\<lambda>j. j \<noteq> UNASSIGNED) (match_job_by_worker s))"

text \<open>Two states that differ at most in the two match vectors.\<close>

definition same_but_matching :: "hungarian \<Rightarrow> hungarian \<Rightarrow> bool" where
  "same_but_matching s t \<longleftrightarrow>
     t = s\<lparr>match_job_by_worker := match_job_by_worker t,
           match_worker_by_job := match_worker_by_job t\<rparr>"

subsection \<open>One pass of the loop of a phase\<close>

definition chosen_job :: "hungarian \<Rightarrow> nat" where
  "chosen_job s = snd (snd (select_min_slack s))"

definition chosen_worker :: "hungarian \<Rightarrow> nat" where
  "chosen_worker s = fst (snd (select_min_slack s))"

definition chosen_slack :: "hungarian \<Rightarrow> real" where
  "chosen_slack s = fst (select_min_slack s)"

definition relabel :: "hungarian \<Rightarrow> hungarian" where
  "relabel s = (if chosen_slack s > 0 then update_labeling (chosen_slack s) s else s)"

definition commit_job :: "hungarian \<Rightarrow> hungarian" where
  "commit_job s =
     (relabel s)\<lparr>parent_worker_by_committed_job :=
                   (parent_worker_by_committed_job (relabel s))[chosen_job s := chosen_worker s]\<rparr>"

subsection \<open>Growth of the matching\<close>

definition matched_workers :: "hungarian \<Rightarrow> nat set" where
  "matched_workers s = {w. w < dim s \<and> match_job_by_worker s ! w \<noteq> UNASSIGNED}"

text \<open>What a completed walk does to the matching: it stays a matching, and exactly one
  worker that had no job gets one.\<close>

definition one_more_matched :: "hungarian \<Rightarrow> hungarian \<Rightarrow> bool" where
  "one_more_matched s t \<longleftrightarrow>
     (\<exists>u. u < dim s \<and> match_job_by_worker s ! u = UNASSIGNED \<and>
          matched_workers t = insert u (matched_workers s))"

text \<open>What a phase leaves alone.\<close>

definition phase_frame :: "hungarian \<Rightarrow> hungarian \<Rightarrow> bool" where
  "phase_frame s t \<longleftrightarrow>
     rows t = rows s \<and> cols t = cols s \<and> dim t = dim s \<and> cost_matrix t = cost_matrix s"

subsection \<open>Phase boundaries\<close>

definition mutual_inverses :: "hungarian \<Rightarrow> bool" where
  "mutual_inverses s \<longleftrightarrow>
     (\<forall>w<dim s. \<forall>j<dim s.
        (match_job_by_worker s ! w = j) = (match_worker_by_job s ! j = w))"

inductive phase_boundary :: "multiarray2 \<Rightarrow> indeterminate \<Rightarrow> hungarian \<Rightarrow> bool"
  for cm :: multiarray2 and ind :: indeterminate where
  after_greedy_match:
    "phase_boundary cm ind (prepare (ind_reduce_min ind) (Hungarian cm ind))"
| after_phase:
    "phase_boundary cm ind s \<Longrightarrow> fetch_unmatched_worker s < dim s \<Longrightarrow>
     execute_phase fuel0 fuel (initialize_phase (fetch_unmatched_worker s) s) = Some (Inr s') \<Longrightarrow>
     phase_boundary cm ind s'"

subsection \<open>The alternating tree of a phase\<close>

definition committed_set :: "hungarian \<Rightarrow> nat set" where
  "committed_set s = {w. w < dim s \<and> committed_workers s ! w}"

definition uncommitted_jobs :: "hungarian \<Rightarrow> nat set" where
  "uncommitted_jobs s = {j. j < dim s \<and> parent_worker_by_committed_job s ! j = UNASSIGNED}"

text \<open>The alternating tree of a phase. \<open>rk\<close> orders the committed workers by the time they
  were committed; it is not stored by the program.\<close>

definition tree_ranked :: "hungarian \<Rightarrow> (nat \<Rightarrow> nat) \<Rightarrow> bool" where
  "tree_ranked s rk \<longleftrightarrow>
     (\<forall>j<dim s. min_slack_worker_by_job s ! j < dim s
                 \<and> committed_workers s ! (min_slack_worker_by_job s ! j)) \<and>
     (\<forall>j<dim s. parent_worker_by_committed_job s ! j \<noteq> UNASSIGNED \<longrightarrow>
        parent_worker_by_committed_job s ! j < dim s
        \<and> committed_workers s ! (parent_worker_by_committed_job s ! j)
        \<and> match_worker_by_job s ! j \<noteq> UNASSIGNED
        \<and> committed_workers s ! (match_worker_by_job s ! j)
        \<and> rk (parent_worker_by_committed_job s ! j) < rk (match_worker_by_job s ! j)) \<and>
     (\<forall>w<dim s. committed_workers s ! w \<longrightarrow>
        match_job_by_worker s ! w = UNASSIGNED
        \<or> parent_worker_by_committed_job s ! (match_job_by_worker s ! w) \<noteq> UNASSIGNED) \<and>
     (\<forall>w<dim s. committed_workers s ! w \<longrightarrow> rk w < card (committed_set s)) \<and>
     (\<exists>r<dim s. committed_workers s ! r \<and> match_job_by_worker s ! r = UNASSIGNED)"

definition tree_inv :: "hungarian \<Rightarrow> bool" where
  "tree_inv s \<longleftrightarrow> wf_state s \<and> matching_inv s \<and> (\<exists>rk. tree_ranked s rk)"

subsection \<open>Labels and slacks\<close>

definition dual_feasible :: "hungarian \<Rightarrow> bool" where
  "dual_feasible s \<longleftrightarrow> (\<forall>w<dim s. \<forall>j<dim s. 0 \<le> slack s w j)"

definition matched_tight :: "hungarian \<Rightarrow> bool" where
  "matched_tight s \<longleftrightarrow>
     (\<forall>w<dim s. match_job_by_worker s ! w \<noteq> UNASSIGNED \<longrightarrow>
        slack s w (match_job_by_worker s ! w) = 0)"

text \<open>For an uncommitted job the recorded slack is the slack of the recorded worker, and
  no committed worker has a smaller one.\<close>

definition slack_records :: "hungarian \<Rightarrow> bool" where
  "slack_records s \<longleftrightarrow>
     (\<forall>j<dim s. parent_worker_by_committed_job s ! j = UNASSIGNED \<longrightarrow>
        min_slack_by_job s ! j = slack s (min_slack_worker_by_job s ! j) j \<and>
        (\<forall>w<dim s. committed_workers s ! w \<longrightarrow> min_slack_by_job s ! j \<le> slack s w j))"

definition tree_tight :: "hungarian \<Rightarrow> bool" where
  "tree_tight s \<longleftrightarrow>
     (\<forall>j<dim s. parent_worker_by_committed_job s ! j \<noteq> UNASSIGNED \<longrightarrow>
        slack s (parent_worker_by_committed_job s ! j) j = 0)"

definition labels_bounded :: "hungarian \<Rightarrow> bool" where
  "labels_bounded s \<longleftrightarrow>
     (\<forall>w<dim s. 0 \<le> label_by_worker s ! w) \<and>
     (\<forall>j<dim s. match_worker_by_job s ! j = UNASSIGNED \<longrightarrow> 0 \<le> label_by_job s ! j) \<and>
     (\<forall>w<dim s. \<forall>j<dim s. at2 (cost_matrix s) w j < POSITIVE_INFINITY)"

definition phase_inv :: "hungarian \<Rightarrow> bool" where
  "phase_inv s \<longleftrightarrow>
     tree_inv s \<and> dual_feasible s \<and> matched_tight s \<and> slack_records s \<and> tree_tight s"

text \<open>The amount by which \<^verbatim>\<open>update_labeling\<close> moves the labels in one pass (zero when it is
  not called).\<close>

definition raise :: "hungarian \<Rightarrow> real" where
  "raise s = (if chosen_slack s > 0 then chosen_slack s else 0)"




subsection \<open>Passes of the loop of a phase\<close>

text \<open>The states in which a pass of the \<^verbatim>\<open>while (true)\<close> loop of \<^verbatim>\<open>execute_phase\<close> begins, in a
  run of \<^verbatim>\<open>execute\<close> on \<open>cm\<close>: the first pass follows \<^verbatim>\<open>initialize_phase\<close>, a further pass follows
  the \<^verbatim>\<open>else\<close> branch of the pass before.\<close>

inductive phase_pass :: "multiarray2 \<Rightarrow> indeterminate \<Rightarrow> hungarian \<Rightarrow> bool"
  for cm :: multiarray2 and ind :: indeterminate where
  first_pass:
    "phase_boundary cm ind s \<Longrightarrow> fetch_unmatched_worker s < dim s \<Longrightarrow>
     phase_pass cm ind (initialize_phase (fetch_unmatched_worker s) s)"
| next_pass:
    "phase_pass cm ind s \<Longrightarrow>
     chosen_job s < length (parent_worker_by_committed_job (relabel s)) \<Longrightarrow>
     match_worker_by_job (commit_job s) ! chosen_job s \<noteq> UNASSIGNED \<Longrightarrow>
     match_worker_by_job (commit_job s) ! chosen_job s < length (committed_workers (commit_job s)) \<Longrightarrow>
     phase_pass cm ind
       (commit_worker (match_worker_by_job (commit_job s) ! chosen_job s) (commit_job s))"

subsection \<open>Assignments and their cost\<close>



subsection \<open>A worked example\<close>

text \<open>The matrix \<open>[[0, 0], [0, 5]]\<close>: the greedy matching gives job 0 to worker 0, and the one
  phase that follows, rooted at worker 1, re-matches worker 0 along a path of two edges.
  \<open>example_prepared\<close> is the state after \<^verbatim>\<open>greedy_match\<close>, \<open>example_walk_start\<close> the state in
  which the walk over that path begins, \<open>example_final\<close> the state after the phase.\<close>

definition example_matrix :: multiarray2 where
  "example_matrix = matrix_of 2 2 [0, 0, 0, 5]"

definition example_prepared :: hungarian where
  "example_prepared =
     \<lparr>rows = 2, cols = 2, dim = 2,
      cost_matrix = \<lparr>extent0 = 2, extent1 = 2, array = [0, 0, 0, 5]\<rparr>,
      label_by_worker = [0, 0], label_by_job = [0, 0],
      min_slack_by_job = [0, 0], min_slack_worker_by_job = [0, 0],
      match_job_by_worker = [0, UNASSIGNED], match_worker_by_job = [0, UNASSIGNED],
      parent_worker_by_committed_job = [0, 0], committed_workers = [False, False]\<rparr>"

definition example_walk_start :: hungarian where
  "example_walk_start =
     example_prepared
       \<lparr>min_slack_worker_by_job := [1, 0],
        parent_worker_by_committed_job := [1, 0],
        committed_workers := [True, True]\<rparr>"

definition example_final :: hungarian where
  "example_final =
     example_walk_start\<lparr>match_job_by_worker := [1, 0], match_worker_by_job := [1, 0]\<rparr>"

definition fuel3 :: nat where
  "fuel3 = Suc (Suc (Suc 0))"







section \<open>Loops and arrays\<close>

lemma fold_upt_invariant:
  assumes "I 0 s" and "\<And>k t. k < n \<Longrightarrow> I k t \<Longrightarrow> I (Suc k) (f k t)"
  shows "I n (fold f [0..<n] s)"
  using assms
proof (induction n)
  case 0
  then show ?case by simp
next
  case (Suc n)
  have "I n (fold f [0..<n] s)"
    by (rule Suc.IH) (use Suc.prems in auto)
  then show ?case
    using Suc.prems(2)[of n] by simp
qed

lemma fold_upt_from_invariant:
  assumes "I m s" and "\<And>k t. m \<le> k \<Longrightarrow> k < n \<Longrightarrow> I k t \<Longrightarrow> I (Suc k) (f k t)" and "m \<le> n"
  shows "I n (fold f [m..<n] s)"
  using assms
proof (induction n)
  case 0
  then show ?case by simp
next
  case (Suc n)
  show ?case
  proof (cases "m = Suc n")
    case True
    then show ?thesis using Suc.prems(1) by simp
  next
    case False
    then have le: "m \<le> n" using Suc.prems(3) by simp
    have "I n (fold f [m..<n] s)"
      by (rule Suc.IH) (use Suc.prems le in auto)
    then show ?thesis
      using Suc.prems(2)[of n] le by simp
  qed
qed

lemma cell_index_less: "w < n \<Longrightarrow> j < n \<Longrightarrow> w * n + j < n * (n::nat)"
proof -
  assume a: "w < n" "j < n"
  have "w * n + j < w * n + n" using a by simp
  also have "\<dots> = Suc w * n" by simp
  also have "\<dots> \<le> n * n" using a by (metis Suc_leI mult.commute mult_le_mono2)
  finally show ?thesis .
qed

lemma cell_index_inj:
  "j < n \<Longrightarrow> j' < n \<Longrightarrow> w * n + j = w' * n + j' \<Longrightarrow> w = w' \<and> j = (j'::nat)"
proof -
  assume a: "j < n" "j' < n" "w * n + j = w' * n + j'"
  have "(j + n * w) div n = w" "(j' + n * w') div n = w'" using a by simp_all
  moreover have "j + n * w = j' + n * w'" using a by (simp add: ac_simps)
  ultimately have "w = w'" by simp
  then show ?thesis using a by simp
qed

lemma wf_matrix_put2 [simp]: "wf_matrix n (put2 a w j v) = wf_matrix n a"
  by (simp add: wf_matrix_def put2_def)

lemma at2_put2:
  "wf_matrix n a \<Longrightarrow> w < n \<Longrightarrow> j < n \<Longrightarrow> w' < n \<Longrightarrow> j' < n \<Longrightarrow>
   at2 (put2 a w j v) w' j' = (if w' = w \<and> j' = j then v else at2 a w' j')"
  using cell_index_inj[of j n j' w w'] cell_index_less[of w n j]
  by (auto simp: wf_matrix_def at2_def put2_def nth_list_update)

lemma least_from_Suc: "least_from f (Suc n) init = (if f n < least_from f n init then f n else least_from f n init)"
  by (simp add: least_from_def)

lemma least_from_0 [simp]: "least_from f 0 init = init"
  by (simp add: least_from_def)

lemma least_from_le_init: "least_from f n init \<le> init"
  by (induction n) (auto simp: least_from_Suc)



lemma least_from_cong: "(\<And>x. x < n \<Longrightarrow> f x = g x) \<Longrightarrow> least_from f n init = least_from g n init"
  unfolding least_from_def by (rule fold_cong) auto

lemma fold_pointwise:
  assumes "n \<le> length a"
  shows "length (fold (\<lambda>j a. a[j := h j (a ! j)]) [0..<n] a) = length a \<and>
         (\<forall>i<length a. fold (\<lambda>j a. a[j := h j (a ! j)]) [0..<n] a ! i
             = (if i < n then h i (a ! i) else a ! i))"
  by (rule fold_upt_invariant[where I = "\<lambda>k b. length b = length a \<and>
         (\<forall>i<length a. b ! i = (if i < k then h i (a ! i) else a ! i))"])
     (use assms in \<open>auto simp: nth_list_update less_Suc_eq\<close>)

lemma fold_pointwise_min:
  "(\<lambda>j m. if f j < m ! j then m[j := f j] else m)
     = (\<lambda>j (m::real list). m[j := (if f j < m ! j then f j else m ! j)])"
  by (intro ext) simp

lemma column_scan:
  fixes m0 :: "real list"
  assumes "length m0 = n"
  shows "length (fold (\<lambda>w m. fold (\<lambda>j m. if f w j < m ! j then m[j := f w j] else m) [0..<n] m)
                  [0..<k] m0) = n \<and>
         (\<forall>j<n. fold (\<lambda>w m. fold (\<lambda>j m. if f w j < m ! j then m[j := f w j] else m) [0..<n] m)
                  [0..<k] m0 ! j = least_from (\<lambda>w. f w j) k (m0 ! j))"
proof (rule fold_upt_invariant[where I = "\<lambda>k m. length m = n \<and>
         (\<forall>j<n. m ! j = least_from (\<lambda>w. f w j) k (m0 ! j))"], goal_cases)
  case 1
  then show ?case using assms by simp
next
  case (2 k t)
  then have len: "n \<le> length t" by simp
  show ?case
    unfolding fold_pointwise_min
    using fold_pointwise[OF len, of "\<lambda>j x. if f k j < x then f k j else x"] 2
    by (simp add: least_from_Suc)
qed

lemma fold_row:
  assumes "wf_matrix n c" "w < n" "m \<le> n'" "n' \<le> n"
  shows "wf_matrix n (fold (\<lambda>j c. put2 c w j (h j (at2 c w j))) [m..<n'] c) \<and>
         (\<forall>w'<n. \<forall>j'<n. at2 (fold (\<lambda>j c. put2 c w j (h j (at2 c w j))) [m..<n'] c) w' j'
            = (if w' = w \<and> m \<le> j' \<and> j' < n' then h j' (at2 c w j') else at2 c w' j'))"
proof (rule fold_upt_from_invariant[where I = "\<lambda>k c'. wf_matrix n c' \<and>
         (\<forall>w'<n. \<forall>j'<n. at2 c' w' j'
            = (if w' = w \<and> m \<le> j' \<and> j' < k then h j' (at2 c w j') else at2 c w' j'))"], goal_cases)
  case 1
  then show ?case using assms by simp
next
  case (2 k t)
  then have kn: "k < n" using assms by simp
  show ?case
    using 2 kn assms(2) by (auto simp: at2_put2[where n = n] less_Suc_eq)
next
  case 3
  then show ?case by (rule assms)
qed

lemma at2_MultiArray2: "w < n \<Longrightarrow> j < n \<Longrightarrow> at2 (MultiArray2 n n) w j = 0"
  using cell_index_less[of w n j] by (simp add: at2_def MultiArray2_def)

lemma wf_matrix_MultiArray2: "wf_matrix n (MultiArray2 n n)"
  by (simp add: wf_matrix_def MultiArray2_def)

lemma Hungarian_cost_matrix:
  assumes n: "n = max (extent0 cm) (extent1 cm)"
  shows "wf_matrix n (cost_matrix (Hungarian cm ind)) \<and>
         (\<forall>w<n. \<forall>j<n. at2 (cost_matrix (Hungarian cm ind)) w j = padded cm w j)"
proof -
  let ?body = "\<lambda>w c. if w < extent0 cm
                  then fold (\<lambda>j c. put2 c w j 0) [extent1 cm..<n]
                         (fold (\<lambda>j c. put2 c w j (at2 cm w j)) [0..<extent1 cm] c)
                  else fold (\<lambda>j c. put2 c w j 0) [0..<n] c"
  have cn: "extent1 cm \<le> n" by (simp add: n)
  have "wf_matrix n (fold ?body [0..<n] (MultiArray2 n n)) \<and>
        (\<forall>w<n. \<forall>j<n. at2 (fold ?body [0..<n] (MultiArray2 n n)) w j
            = (if w < n then padded cm w j else 0))"
  proof (rule fold_upt_invariant[where I = "\<lambda>k c. wf_matrix n c \<and>
          (\<forall>w<n. \<forall>j<n. at2 c w j = (if w < k then padded cm w j else 0))"], goal_cases)
    case 1
    then show ?case by (simp add: wf_matrix_MultiArray2 at2_MultiArray2)
  next
    case (2 k t)
    then have wf: "wf_matrix n t" and kn: "k < n"
      and old: "\<And>w j. w < n \<Longrightarrow> j < n \<Longrightarrow> at2 t w j = (if w < k then padded cm w j else 0)"
      by auto
    show ?case
    proof (cases "k < extent0 cm")
      case True
      note r1 = fold_row[OF wf kn le0 cn, of "\<lambda>j _. at2 cm k j"]
      note r2 = fold_row[OF conjunct1[OF r1] kn cn order_refl, of "\<lambda>_ _. 0"]
      show ?thesis
        using True r1 r2 old by (auto simp: padded_def less_Suc_eq)
    next
      case False
      note r = fold_row[OF wf kn le0 order_refl, of "\<lambda>_ _. 0"]
      show ?thesis
        using False r old by (auto simp: padded_def less_Suc_eq)
    qed
  qed
  then show ?thesis
    unfolding n by (simp add: Hungarian_def Let_def)
qed

lemma fold_const_fill:
  "n \<le> length a \<Longrightarrow> fold (\<lambda>j a. a[j := v]) [0..<n] a = replicate n v @ drop n a"
proof -
  assume a: "n \<le> length a"
  note r = fold_pointwise[OF a, of "\<lambda>_ _. v"]
  show ?thesis
    by (rule nth_equalityI) (use r a in \<open>auto simp: nth_append\<close>)
qed

lemma Hungarian_fields:
  "rows (Hungarian cm ind) = extent0 cm"
  "cols (Hungarian cm ind) = extent1 cm"
  "dim (Hungarian cm ind) = max (extent0 cm) (extent1 cm)"
  "label_by_worker (Hungarian cm ind)
     = MultiArray1 (max (extent0 cm) (extent1 cm)) (ind_label_by_worker ind)"
  "match_job_by_worker (Hungarian cm ind) = replicate (max (extent0 cm) (extent1 cm)) UNASSIGNED"
  "match_worker_by_job (Hungarian cm ind) = replicate (max (extent0 cm) (extent1 cm)) UNASSIGNED"
  by (simp_all add: Hungarian_def Let_def MultiArray1_def fold_const_fill)

lemma wf_state_Hungarian:
  "wf_multiarray2 cm \<Longrightarrow> wf_state (Hungarian cm ind)"
  using Hungarian_cost_matrix[OF refl, of cm ind]
  by (simp add: wf_state_def Hungarian_fields)
     (simp add: Hungarian_def Let_def MultiArray1_def wf_multiarray2_def UNASSIGNED_def
        UINT32_MAX_VALUE_def)

lemma least_from_fold:
  "fold (\<lambda>j mn. if at2 c w j < mn then at2 c w j else mn) [0..<n] init = least_from (at2 c w) n init"
  by (simp add: least_from_def)

lemma fold_rows:
  assumes wf: "wf_matrix n c0"
    and step: "\<And>k t. k < n \<Longrightarrow> wf_matrix n t \<Longrightarrow> (\<forall>j<n. at2 t k j = at2 c0 k j) \<Longrightarrow>
        wf_matrix n (body k t) \<and>
        (\<forall>w<n. \<forall>j<n. at2 (body k t) w j = (if w = k then F k j else at2 t w j))"
  shows "wf_matrix n (fold body [0..<n] c0) \<and>
         (\<forall>w<n. \<forall>j<n. at2 (fold body [0..<n] c0) w j = F w j)"
proof -
  have "wf_matrix n (fold body [0..<n] c0) \<and>
         (\<forall>w<n. \<forall>j<n. at2 (fold body [0..<n] c0) w j = (if w < n then F w j else at2 c0 w j))"
  proof (rule fold_upt_invariant[where I = "\<lambda>k c. wf_matrix n c \<and>
          (\<forall>w<n. \<forall>j<n. at2 c w j = (if w < k then F w j else at2 c0 w j))"], goal_cases)
    case 1
    then show ?case using wf by simp
  next
    case (2 k t)
    then have "wf_matrix n (body k t) \<and>
        (\<forall>w<n. \<forall>j<n. at2 (body k t) w j = (if w = k then F k j else at2 t w j))"
      by (intro step) auto
    then show ?case using 2 by (auto simp: less_Suc_eq)
  qed
  then show ?thesis by simp
qed

lemma row_reduce_cells:
  assumes wf: "wf_matrix n c0"
  shows "wf_matrix n (fold (\<lambda>w c.
                (let mn = fold (\<lambda>j mn. if at2 c w j < mn then at2 c w j else mn)
                            [0..<n] POSITIVE_INFINITY
                 in fold (\<lambda>j c. put2 c w j (at2 c w j - mn)) [0..<n] c)) [0..<n] c0) \<and>
         (\<forall>w<n. \<forall>j<n. at2 (fold (\<lambda>w c.
                (let mn = fold (\<lambda>j mn. if at2 c w j < mn then at2 c w j else mn)
                            [0..<n] POSITIVE_INFINITY
                 in fold (\<lambda>j c. put2 c w j (at2 c w j - mn)) [0..<n] c)) [0..<n] c0) w j
              = row_reduced c0 n w j)"
proof (rule fold_rows[OF wf], goal_cases)
  case (1 k t)
  have mn: "least_from (at2 t k) n POSITIVE_INFINITY = row_least c0 n k"
    unfolding row_least_def by (rule least_from_cong) (use 1 in auto)
  note r = fold_row[OF 1(2) 1(1) le0 order_refl, of "\<lambda>j x. x - row_least c0 n k"]
  show ?case
    unfolding least_from_fold Let_def mn
    using r 1 by (auto simp: row_reduced_def)
qed

lemma col_reduce_cells:
  assumes wf: "wf_matrix n c1"
  shows "wf_matrix n (fold (\<lambda>w c. fold (\<lambda>j c. put2 c w j (at2 c w j - m ! j)) [0..<n] c)
                [0..<n] c1) \<and>
         (\<forall>w<n. \<forall>j<n. at2 (fold (\<lambda>w c. fold (\<lambda>j c. put2 c w j (at2 c w j - m ! j)) [0..<n] c)
                [0..<n] c1) w j = at2 c1 w j - m ! j)"
proof (rule fold_rows[OF wf], goal_cases)
  case (1 k t)
  note r = fold_row[OF 1(2) 1(1) le0 order_refl, of "\<lambda>j x. x - m ! j"]
  show ?case
    using r 1 by auto
qed

lemma reduce_cells:
  assumes wf: "wf_matrix n (cost_matrix s)" and n: "n = dim s"
  shows "wf_matrix n (cost_matrix (reduce junk s)) \<and>
         (\<forall>w<n. \<forall>j<n. at2 (cost_matrix (reduce junk s)) w j
             = row_reduced (cost_matrix s) n w j - col_least (cost_matrix s) n j)"
proof -
  let ?c0 = "cost_matrix s"
  let ?c1 = "fold (\<lambda>w c.
                (let mn = fold (\<lambda>j mn. if at2 c w j < mn then at2 c w j else mn)
                            [0..<n] POSITIVE_INFINITY
                 in fold (\<lambda>j c. put2 c w j (at2 c w j - mn)) [0..<n] c)) [0..<n] ?c0"
  let ?min0 = "fold (\<lambda>j m. m[j := POSITIVE_INFINITY]) [0..<n] (MultiArray1 n junk)"
  let ?min1 = "fold (\<lambda>w m.
                  fold (\<lambda>j m. if at2 ?c1 w j < m ! j then m[j := at2 ?c1 w j] else m) [0..<n] m)
                [0..<n] ?min0"
  note c1 = row_reduce_cells[OF wf]
  have min0: "?min0 = replicate n POSITIVE_INFINITY"
    by (simp add: fold_const_fill MultiArray1_def)
  have len0: "length ?min0 = n" by (simp add: min0)
  note scan = column_scan[OF len0, of "at2 ?c1" n]
  have min1: "?min1 ! j = col_least ?c0 n j" if "j < n" for j
  proof -
    have "?min1 ! j = least_from (\<lambda>w. at2 ?c1 w j) n POSITIVE_INFINITY"
      using scan that by (simp add: min0)
    also have "\<dots> = col_least ?c0 n j"
      unfolding col_least_def by (rule least_from_cong) (use c1 that in auto)
    finally show ?thesis .
  qed
  note c2 = col_reduce_cells[OF conjunct1[OF c1], of ?min1]
  have "cost_matrix (reduce junk s)
        = fold (\<lambda>w c. fold (\<lambda>j c. put2 c w j (at2 c w j - ?min1 ! j)) [0..<n] c) [0..<n] ?c1"
    unfolding reduce_def Let_def n by simp
  then show ?thesis
    using c1 c2 min1 by simp
qed










section \<open>Constructor, reduce and the initial labels\<close>

lemmas model_defs_symbolic =
  Hungarian_def reduce_def compute_initial_feasible_solution_def slack_def match_def
  greedy_match_def fetch_unmatched_worker_def fetch_from.simps initialize_phase_def
  update_labeling_def augment_step_def select_min_slack_def commit_worker_def prepare_def
  extract_result_def execute_def at2_def put2_def MultiArray2_def MultiArray1_def Let_def
  matrix_of_def zero_storage_def stale_storage_def UNASSIGNED_def

lemmas model_defs = model_defs_symbolic POSITIVE_INFINITY_def

lemma reduce_fields [simp]:
  "rows (reduce junk s) = rows s" "cols (reduce junk s) = cols s" "dim (reduce junk s) = dim s"
  "label_by_worker (reduce junk s) = label_by_worker s"
  "label_by_job (reduce junk s) = label_by_job s"
  "min_slack_by_job (reduce junk s) = min_slack_by_job s"
  "min_slack_worker_by_job (reduce junk s) = min_slack_worker_by_job s"
  "match_job_by_worker (reduce junk s) = match_job_by_worker s"
  "match_worker_by_job (reduce junk s) = match_worker_by_job s"
  "parent_worker_by_committed_job (reduce junk s) = parent_worker_by_committed_job s"
  "committed_workers (reduce junk s) = committed_workers s"
  by (simp_all add: reduce_def Let_def)

lemma compute_initial_fields [simp]:
  "rows (compute_initial_feasible_solution s) = rows s"
  "cols (compute_initial_feasible_solution s) = cols s"
  "dim (compute_initial_feasible_solution s) = dim s"
  "cost_matrix (compute_initial_feasible_solution s) = cost_matrix s"
  "label_by_worker (compute_initial_feasible_solution s) = label_by_worker s"
  "min_slack_by_job (compute_initial_feasible_solution s) = min_slack_by_job s"
  "min_slack_worker_by_job (compute_initial_feasible_solution s) = min_slack_worker_by_job s"
  "match_job_by_worker (compute_initial_feasible_solution s) = match_job_by_worker s"
  "match_worker_by_job (compute_initial_feasible_solution s) = match_worker_by_job s"
  "parent_worker_by_committed_job (compute_initial_feasible_solution s)
     = parent_worker_by_committed_job s"
  "committed_workers (compute_initial_feasible_solution s) = committed_workers s"
  by (simp_all add: compute_initial_feasible_solution_def Let_def)

lemma compute_initial_label_by_job:
  assumes len: "length (label_by_job s) = dim s"
  shows "length (label_by_job (compute_initial_feasible_solution s)) = dim s \<and>
         (\<forall>j<dim s. label_by_job (compute_initial_feasible_solution s) ! j
             = least_from (\<lambda>w. at2 (cost_matrix s) w j) (dim s) POSITIVE_INFINITY)"
proof -
  let ?n = "dim s"
  let ?l0 = "fold (\<lambda>j l. l[j := POSITIVE_INFINITY]) [0..<?n] (label_by_job s)"
  have l0: "?l0 = replicate ?n POSITIVE_INFINITY"
    using len by (simp add: fold_const_fill)
  have len0: "length ?l0 = ?n" by (simp add: l0)
  note scan = column_scan[OF len0, of "at2 (cost_matrix s)" ?n]
  have "label_by_job (compute_initial_feasible_solution s)
        = fold (\<lambda>w l. fold (\<lambda>j l. if at2 (cost_matrix s) w j < l ! j
                              then l[j := at2 (cost_matrix s) w j] else l) [0..<?n] l)
            [0..<?n] ?l0"
    unfolding compute_initial_feasible_solution_def Let_def by simp
  then show ?thesis
    using scan by (simp add: l0)
qed


lemma wf_state_reduce:
  assumes "wf_state s"
  shows "wf_state (reduce junk s)"
  using assms reduce_cells[OF _ refl, of s junk] by (simp add: wf_state_def)

lemma wf_state_compute_initial:
  assumes "wf_state s"
  shows "wf_state (compute_initial_feasible_solution s)"
  using assms compute_initial_label_by_job[of s] by (simp add: wf_state_def)


section \<open>The operations of a phase\<close>

lemma slack_cong:
  "cost_matrix t = cost_matrix s \<Longrightarrow> label_by_worker t = label_by_worker s \<Longrightarrow>
   label_by_job t = label_by_job s \<Longrightarrow> slack t = slack s"
  by (simp add: slack_def fun_eq_iff)

lemma slack_update [simp]:
  "slack (s\<lparr>min_slack_by_job := a\<rparr>) = slack s"
  "slack (s\<lparr>min_slack_worker_by_job := b\<rparr>) = slack s"
  "slack (s\<lparr>match_job_by_worker := c\<rparr>) = slack s"
  "slack (s\<lparr>match_worker_by_job := d\<rparr>) = slack s"
  "slack (s\<lparr>parent_worker_by_committed_job := e\<rparr>) = slack s"
  "slack (s\<lparr>committed_workers := f\<rparr>) = slack s"
  by (simp_all add: slack_def fun_eq_iff)

lemma initialize_phase_eq:
  assumes wf: "wf_state s"
  shows "initialize_phase w s =
     s\<lparr>parent_worker_by_committed_job := replicate (dim s) UNASSIGNED,
       committed_workers := (replicate (dim s) False)[w := True],
       min_slack_by_job := map (slack s w) [0..<dim s],
       min_slack_worker_by_job := replicate (dim s) w\<rparr>"
proof -
  let ?n = "dim s"
  let ?s1 = "s\<lparr>parent_worker_by_committed_job := replicate ?n UNASSIGNED,
                 committed_workers := (replicate ?n False)[w := True]\<rparr>"
  let ?body = "\<lambda>j s. s\<lparr>min_slack_by_job := (min_slack_by_job s)[j := slack s w j],
                         min_slack_worker_by_job := (min_slack_worker_by_job s)[j := w]\<rparr>"
  have len: "length (min_slack_by_job s) = ?n" "length (min_slack_worker_by_job s) = ?n"
    "length (parent_worker_by_committed_job s) = ?n" "length (committed_workers s) = ?n"
    using wf by (simp_all add: wf_state_def)
  have "\<exists>a b. fold ?body [0..<?n] ?s1 = ?s1\<lparr>min_slack_by_job := a, min_slack_worker_by_job := b\<rparr>
          \<and> length a = ?n \<and> length b = ?n
          \<and> (\<forall>j<?n. a ! j = (if j < ?n then slack s w j else min_slack_by_job s ! j))
          \<and> (\<forall>j<?n. b ! j = (if j < ?n then w else min_slack_worker_by_job s ! j))"
  proof (rule fold_upt_invariant[where I = "\<lambda>k t. \<exists>a b.
          t = ?s1\<lparr>min_slack_by_job := a, min_slack_worker_by_job := b\<rparr>
          \<and> length a = ?n \<and> length b = ?n
          \<and> (\<forall>j<?n. a ! j = (if j < k then slack s w j else min_slack_by_job s ! j))
          \<and> (\<forall>j<?n. b ! j = (if j < k then w else min_slack_worker_by_job s ! j))"], goal_cases)
    case 1
    show ?case
      by (rule exI[of _ "min_slack_by_job s"], rule exI[of _ "min_slack_worker_by_job s"])
         (simp add: len)
  next
    case (2 k t)
    then obtain a b where t: "t = ?s1\<lparr>min_slack_by_job := a, min_slack_worker_by_job := b\<rparr>"
      and ab: "length a = ?n" "length b = ?n"
        "\<forall>j<?n. a ! j = (if j < k then slack s w j else min_slack_by_job s ! j)"
        "\<forall>j<?n. b ! j = (if j < k then w else min_slack_worker_by_job s ! j)"
      by blast
    show ?case
      by (rule exI[of _ "a[k := slack s w k]"], rule exI[of _ "b[k := w]"])
         (use ab 2(1) in \<open>auto simp: t nth_list_update less_Suc_eq\<close>)
  qed
  then obtain a b where
    r: "fold ?body [0..<?n] ?s1 = ?s1\<lparr>min_slack_by_job := a, min_slack_worker_by_job := b\<rparr>"
    and ab: "length a = ?n" "length b = ?n" "\<forall>j<?n. a ! j = slack s w j" "\<forall>j<?n. b ! j = w"
    by auto
  have a: "a = map (slack s w) [0..<?n]"
    by (rule nth_equalityI) (use ab in auto)
  have b: "b = replicate ?n w"
    by (rule nth_equalityI) (use ab in auto)
  have "initialize_phase w s = fold ?body [0..<?n] ?s1"
    unfolding initialize_phase_def Let_def by (simp add: fold_const_fill len)
  then show ?thesis
    unfolding r a b by simp
qed

lemma update_labeling_eq:
  assumes wf: "wf_state s"
  shows "update_labeling sl s =
     s\<lparr>label_by_worker :=
         map (\<lambda>w. if committed_workers s ! w then label_by_worker s ! w + sl
                   else label_by_worker s ! w) [0..<dim s],
       label_by_job :=
         map (\<lambda>j. if parent_worker_by_committed_job s ! j \<noteq> UNASSIGNED
                   then label_by_job s ! j - sl else label_by_job s ! j) [0..<dim s],
       min_slack_by_job :=
         map (\<lambda>j. if parent_worker_by_committed_job s ! j \<noteq> UNASSIGNED
                   then min_slack_by_job s ! j else min_slack_by_job s ! j - sl) [0..<dim s]\<rparr>"
proof -
  let ?n = "dim s"
  let ?lw = "\<lambda>w. if committed_workers s ! w then label_by_worker s ! w + sl
                   else label_by_worker s ! w"
  let ?lj = "\<lambda>j. if parent_worker_by_committed_job s ! j \<noteq> UNASSIGNED
                   then label_by_job s ! j - sl else label_by_job s ! j"
  let ?ms = "\<lambda>j. if parent_worker_by_committed_job s ! j \<noteq> UNASSIGNED
                   then min_slack_by_job s ! j else min_slack_by_job s ! j - sl"
  let ?b1 = "\<lambda>w s. if committed_workers s ! w
                           then s\<lparr>label_by_worker :=
                                     (label_by_worker s)[w := label_by_worker s ! w + sl]\<rparr>
                           else s"
  let ?b2 = "\<lambda>j s. if parent_worker_by_committed_job s ! j \<noteq> UNASSIGNED
                     then s\<lparr>label_by_job := (label_by_job s)[j := label_by_job s ! j - sl]\<rparr>
                     else s\<lparr>min_slack_by_job :=
                               (min_slack_by_job s)[j := min_slack_by_job s ! j - sl]\<rparr>"
  have len: "length (label_by_worker s) = ?n" "length (label_by_job s) = ?n"
    "length (min_slack_by_job s) = ?n"
    using wf by (simp_all add: wf_state_def)
  have "\<exists>a. fold ?b1 [0..<?n] s = s\<lparr>label_by_worker := a\<rparr> \<and> length a = ?n
          \<and> (\<forall>w<?n. a ! w = (if w < ?n then ?lw w else label_by_worker s ! w))"
  proof (rule fold_upt_invariant[where I = "\<lambda>k t. \<exists>a.
          t = s\<lparr>label_by_worker := a\<rparr> \<and> length a = ?n
          \<and> (\<forall>w<?n. a ! w = (if w < k then ?lw w else label_by_worker s ! w))"], goal_cases)
    case 1
    show ?case by (rule exI[of _ "label_by_worker s"]) (simp add: len)
  next
    case (2 k t)
    then obtain a where t: "t = s\<lparr>label_by_worker := a\<rparr>" and a: "length a = ?n"
        "\<forall>w<?n. a ! w = (if w < k then ?lw w else label_by_worker s ! w)"
      by blast
    show ?case
    proof (cases "committed_workers s ! k")
      case True
      show ?thesis
        by (rule exI[of _ "a[k := a ! k + sl]"])
           (use a 2(1) True in \<open>auto simp: t nth_list_update less_Suc_eq\<close>)
    next
      case False
      show ?thesis
        by (rule exI[of _ a]) (use a 2(1) False in \<open>auto simp: t less_Suc_eq\<close>)
    qed
  qed
  then obtain a where r1: "fold ?b1 [0..<?n] s = s\<lparr>label_by_worker := a\<rparr>"
    and a: "length a = ?n" "\<forall>w<?n. a ! w = ?lw w"
    by auto
  have a_eq: "a = map ?lw [0..<?n]"
    by (rule nth_equalityI) (use a in auto)
  let ?s1 = "s\<lparr>label_by_worker := a\<rparr>"
  have "\<exists>b c. fold ?b2 [0..<?n] ?s1 = ?s1\<lparr>label_by_job := b, min_slack_by_job := c\<rparr>
          \<and> length b = ?n \<and> length c = ?n
          \<and> (\<forall>j<?n. b ! j = (if j < ?n then ?lj j else label_by_job s ! j))
          \<and> (\<forall>j<?n. c ! j = (if j < ?n then ?ms j else min_slack_by_job s ! j))"
  proof (rule fold_upt_invariant[where I = "\<lambda>k t. \<exists>b c.
          t = ?s1\<lparr>label_by_job := b, min_slack_by_job := c\<rparr>
          \<and> length b = ?n \<and> length c = ?n
          \<and> (\<forall>j<?n. b ! j = (if j < k then ?lj j else label_by_job s ! j))
          \<and> (\<forall>j<?n. c ! j = (if j < k then ?ms j else min_slack_by_job s ! j))"], goal_cases)
    case 1
    show ?case
      by (rule exI[of _ "label_by_job s"], rule exI[of _ "min_slack_by_job s"]) (simp add: len)
  next
    case (2 k t)
    then obtain b c where t: "t = ?s1\<lparr>label_by_job := b, min_slack_by_job := c\<rparr>"
      and bc: "length b = ?n" "length c = ?n"
        "\<forall>j<?n. b ! j = (if j < k then ?lj j else label_by_job s ! j)"
        "\<forall>j<?n. c ! j = (if j < k then ?ms j else min_slack_by_job s ! j)"
      by blast
    show ?case
    proof (cases "parent_worker_by_committed_job s ! k \<noteq> UNASSIGNED")
      case True
      show ?thesis
        by (rule exI[of _ "b[k := b ! k - sl]"], rule exI[of _ c])
           (use bc 2(1) True in \<open>auto simp: t nth_list_update less_Suc_eq\<close>)
    next
      case False
      show ?thesis
        by (rule exI[of _ b], rule exI[of _ "c[k := c ! k - sl]"])
           (use bc 2(1) False in \<open>auto simp: t nth_list_update less_Suc_eq\<close>)
    qed
  qed
  then obtain b c where
    r2: "fold ?b2 [0..<?n] ?s1 = ?s1\<lparr>label_by_job := b, min_slack_by_job := c\<rparr>"
    and bc: "length b = ?n" "length c = ?n" "\<forall>j<?n. b ! j = ?lj j" "\<forall>j<?n. c ! j = ?ms j"
    by auto
  have b_eq: "b = map ?lj [0..<?n]"
    by (rule nth_equalityI) (use bc in auto)
  have c_eq: "c = map ?ms [0..<?n]"
    by (rule nth_equalityI) (use bc in auto)
  have "update_labeling sl s = fold ?b2 [0..<?n] (fold ?b1 [0..<?n] s)"
    unfolding update_labeling_def Let_def by simp
  also have "\<dots> = fold ?b2 [0..<?n] ?s1"
    by (simp only: r1)
  also have "\<dots> = ?s1\<lparr>label_by_job := b, min_slack_by_job := c\<rparr>"
    by (rule r2)
  finally show ?thesis
    unfolding a_eq b_eq c_eq by simp
qed

lemma commit_worker_eq:
  assumes wf: "wf_state s"
  shows "commit_worker worker s =
     s\<lparr>committed_workers := (committed_workers s)[worker := True],
       min_slack_by_job :=
         map (\<lambda>j. if parent_worker_by_committed_job s ! j = UNASSIGNED
                      \<and> slack s worker j < min_slack_by_job s ! j
                   then slack s worker j else min_slack_by_job s ! j) [0..<dim s],
       min_slack_worker_by_job :=
         map (\<lambda>j. if parent_worker_by_committed_job s ! j = UNASSIGNED
                      \<and> slack s worker j < min_slack_by_job s ! j
                   then worker else min_slack_worker_by_job s ! j) [0..<dim s]\<rparr>"
proof -
  let ?n = "dim s"
  let ?c = "\<lambda>j. parent_worker_by_committed_job s ! j = UNASSIGNED
                      \<and> slack s worker j < min_slack_by_job s ! j"
  let ?ms = "\<lambda>j. if ?c j then slack s worker j else min_slack_by_job s ! j"
  let ?mw = "\<lambda>j. if ?c j then worker else min_slack_worker_by_job s ! j"
  let ?s1 = "s\<lparr>committed_workers := (committed_workers s)[worker := True]\<rparr>"
  let ?body = "\<lambda>j s.
            if parent_worker_by_committed_job s ! j = UNASSIGNED
            then (let sl = slack s worker j
                  in if min_slack_by_job s ! j > sl
                     then s\<lparr>min_slack_by_job := (min_slack_by_job s)[j := sl],
                            min_slack_worker_by_job := (min_slack_worker_by_job s)[j := worker]\<rparr>
                     else s)
            else s"
  have len: "length (min_slack_by_job s) = ?n" "length (min_slack_worker_by_job s) = ?n"
    using wf by (simp_all add: wf_state_def)
  have "\<exists>a b. fold ?body [0..<?n] ?s1 = ?s1\<lparr>min_slack_by_job := a, min_slack_worker_by_job := b\<rparr>
          \<and> length a = ?n \<and> length b = ?n
          \<and> (\<forall>j<?n. a ! j = (if j < ?n then ?ms j else min_slack_by_job s ! j))
          \<and> (\<forall>j<?n. b ! j = (if j < ?n then ?mw j else min_slack_worker_by_job s ! j))"
  proof (rule fold_upt_invariant[where I = "\<lambda>k t. \<exists>a b.
          t = ?s1\<lparr>min_slack_by_job := a, min_slack_worker_by_job := b\<rparr>
          \<and> length a = ?n \<and> length b = ?n
          \<and> (\<forall>j<?n. a ! j = (if j < k then ?ms j else min_slack_by_job s ! j))
          \<and> (\<forall>j<?n. b ! j = (if j < k then ?mw j else min_slack_worker_by_job s ! j))"], goal_cases)
    case 1
    show ?case
      by (rule exI[of _ "min_slack_by_job s"], rule exI[of _ "min_slack_worker_by_job s"])
         (simp add: len)
  next
    case (2 k t)
    then obtain a b where t: "t = ?s1\<lparr>min_slack_by_job := a, min_slack_worker_by_job := b\<rparr>"
      and ab: "length a = ?n" "length b = ?n"
        "\<forall>j<?n. a ! j = (if j < k then ?ms j else min_slack_by_job s ! j)"
        "\<forall>j<?n. b ! j = (if j < k then ?mw j else min_slack_worker_by_job s ! j)"
      by blast
    have ak: "a ! k = min_slack_by_job s ! k" using ab 2(1) by simp
    show ?case
    proof (cases "?c k")
      case True
      show ?thesis
        by (rule exI[of _ "a[k := slack s worker k]"], rule exI[of _ "b[k := worker]"])
           (use ab 2(1) True ak in \<open>auto simp: t Let_def nth_list_update less_Suc_eq\<close>)
    next
      case False
      show ?thesis
        by (rule exI[of _ a], rule exI[of _ b])
           (use ab 2(1) False ak in \<open>auto simp: t Let_def less_Suc_eq\<close>)
    qed
  qed
  then obtain a b where
    r: "fold ?body [0..<?n] ?s1 = ?s1\<lparr>min_slack_by_job := a, min_slack_worker_by_job := b\<rparr>"
    and ab: "length a = ?n" "length b = ?n" "\<forall>j<?n. a ! j = ?ms j" "\<forall>j<?n. b ! j = ?mw j"
    by auto
  have a_eq: "a = map ?ms [0..<?n]"
    by (rule nth_equalityI) (use ab in auto)
  have b_eq: "b = map ?mw [0..<?n]"
    by (rule nth_equalityI) (use ab in auto)
  have "commit_worker worker s = fold ?body [0..<?n] ?s1"
    unfolding commit_worker_def by simp
  also have "\<dots> = ?s1\<lparr>min_slack_by_job := a, min_slack_worker_by_job := b\<rparr>"
    by (rule r)
  finally show ?thesis
    unfolding a_eq b_eq by simp
qed

lemma execute_phase_Suc:
  "execute_phase fuel0 (Suc fuel) s =
     (if chosen_job s < length (parent_worker_by_committed_job (relabel s))
      then (if match_worker_by_job (commit_job s) ! chosen_job s = UNASSIGNED
            then augment fuel0 (commit_job s)
                   (parent_worker_by_committed_job (commit_job s) ! chosen_job s) (chosen_job s)
            else (if match_worker_by_job (commit_job s) ! chosen_job s
                       < length (committed_workers (commit_job s))
                  then execute_phase fuel0 fuel
                         (commit_worker (match_worker_by_job (commit_job s) ! chosen_job s)
                            (commit_job s))
                  else Some (Inl IndexOutOfRange)))
      else Some (Inl IndexOutOfRange))"
  by (simp add: chosen_job_def chosen_worker_def chosen_slack_def relabel_def commit_job_def
        Let_def split: prod.split)

lemma select_min_slack_props:
  assumes le: "dim s \<le> UNASSIGNED"
  shows "(chosen_job s = UNASSIGNED \<and> chosen_worker s = UNASSIGNED
            \<and> chosen_slack s = POSITIVE_INFINITY
            \<and> (\<forall>j<dim s. parent_worker_by_committed_job s ! j = UNASSIGNED
                   \<longrightarrow> POSITIVE_INFINITY \<le> min_slack_by_job s ! j))
       \<or> (chosen_job s < dim s
            \<and> parent_worker_by_committed_job s ! chosen_job s = UNASSIGNED
            \<and> chosen_slack s = min_slack_by_job s ! chosen_job s
            \<and> chosen_worker s = min_slack_worker_by_job s ! chosen_job s
            \<and> chosen_slack s < POSITIVE_INFINITY
            \<and> (\<forall>j<dim s. parent_worker_by_committed_job s ! j = UNASSIGNED
                   \<longrightarrow> chosen_slack s \<le> min_slack_by_job s ! j))"
proof -
  let ?P = "\<lambda>k (r :: real \<times> nat \<times> nat).
       (snd (snd r) = UNASSIGNED \<and> fst (snd r) = UNASSIGNED \<and> fst r = POSITIVE_INFINITY
            \<and> (\<forall>j<k. parent_worker_by_committed_job s ! j = UNASSIGNED
                   \<longrightarrow> POSITIVE_INFINITY \<le> min_slack_by_job s ! j))
       \<or> (snd (snd r) < k
            \<and> parent_worker_by_committed_job s ! snd (snd r) = UNASSIGNED
            \<and> fst r = min_slack_by_job s ! snd (snd r)
            \<and> fst (snd r) = min_slack_worker_by_job s ! snd (snd r)
            \<and> fst r < POSITIVE_INFINITY
            \<and> (\<forall>j<k. parent_worker_by_committed_job s ! j = UNASSIGNED
                   \<longrightarrow> fst r \<le> min_slack_by_job s ! j))"
  have "?P (dim s) (select_min_slack s)"
    unfolding select_min_slack_def
  proof (rule fold_upt_invariant[where I = ?P], goal_cases)
    case 1
    show ?case by simp
  next
    case (2 k t)
    obtain v w jm where t: "t = (v, w, jm)" by (cases t) auto
    show ?case
      using 2 unfolding t by (auto simp: less_Suc_eq)
  qed
  moreover have "snd (snd (select_min_slack s)) < dim s
      \<Longrightarrow> snd (snd (select_min_slack s)) \<noteq> UNASSIGNED"
    using le by simp
  ultimately show ?thesis
    unfolding chosen_job_def chosen_worker_def chosen_slack_def by blast
qed







section \<open>The matching vectors\<close>

lemma match_fields [simp]:
  "rows (match w j s) = rows s" "cols (match w j s) = cols s" "dim (match w j s) = dim s"
  "cost_matrix (match w j s) = cost_matrix s"
  "label_by_worker (match w j s) = label_by_worker s"
  "label_by_job (match w j s) = label_by_job s"
  "min_slack_by_job (match w j s) = min_slack_by_job s"
  "min_slack_worker_by_job (match w j s) = min_slack_worker_by_job s"
  "match_job_by_worker (match w j s) = (match_job_by_worker s)[w := j]"
  "match_worker_by_job (match w j s) = (match_worker_by_job s)[j := w]"
  "parent_worker_by_committed_job (match w j s) = parent_worker_by_committed_job s"
  "committed_workers (match w j s) = committed_workers s"
  by (simp_all add: match_def)

lemma wf_state_match [simp]: "wf_state (match w j s) = wf_state s"
  by (simp add: wf_state_def)


lemma matching_inv_walk_inv:
  assumes "matching_inv s" "cj < dim s" "match_worker_by_job s ! cj = UNASSIGNED"
    "dim s \<le> UNASSIGNED"
  shows "walk_inv s cj"
  using assms unfolding matching_inv_def walk_inv_def
  by (metis leD)

lemma walk_step_last:
  assumes inv: "walk_inv s cj" and pw: "pw < dim s"
    and len: "length (match_job_by_worker s) = dim s" "length (match_worker_by_job s) = dim s"
    and un: "match_job_by_worker s ! pw = UNASSIGNED" and le: "dim s \<le> UNASSIGNED"
  shows "matching_inv (match pw cj s)"
  unfolding matching_inv_def
proof (intro conjI allI impI)
  have cj: "cj < dim s" using inv by (simp add: walk_inv_def)
  have cjun: "cj \<noteq> UNASSIGNED" using cj le by simp
  have pwun: "pw \<noteq> UNASSIGNED" using pw le by simp
  {
    fix w assume w: "w < dim (match pw cj s)"
      and m: "match_job_by_worker (match pw cj s) ! w \<noteq> UNASSIGNED"
    show "match_job_by_worker (match pw cj s) ! w < dim (match pw cj s)"
      using inv w m pw len cj unfolding walk_inv_def by (auto simp: nth_list_update)
    show "match_worker_by_job (match pw cj s) ! (match_job_by_worker (match pw cj s) ! w) = w"
      using inv w m pw len cj unfolding walk_inv_def by (auto simp: nth_list_update)
  }
  {
    fix j assume j: "j < dim (match pw cj s)"
      and m: "match_worker_by_job (match pw cj s) ! j \<noteq> UNASSIGNED"
    show "match_worker_by_job (match pw cj s) ! j < dim (match pw cj s)"
      using inv j m pw len cj unfolding walk_inv_def by (auto simp: nth_list_update)
    show "match_job_by_worker (match pw cj s) ! (match_worker_by_job (match pw cj s) ! j) = j"
      using inv j m pw len cj un le unfolding walk_inv_def
      by (auto simp: nth_list_update split: if_splits)
  }
qed

lemma walk_step_next:
  assumes inv: "walk_inv s cj" and pw: "pw < dim s"
    and len: "length (match_job_by_worker s) = dim s" "length (match_worker_by_job s) = dim s"
    and un: "match_job_by_worker s ! pw \<noteq> UNASSIGNED"
  shows "walk_inv (match pw cj s) (match_job_by_worker s ! pw)"
  unfolding walk_inv_def
proof (intro conjI allI impI)
  have cj: "cj < dim s" using inv by (simp add: walk_inv_def)
  let ?t = "match_job_by_worker s ! pw"
  have t: "?t < dim s" "?t \<noteq> cj" "match_worker_by_job s ! ?t = pw"
    using inv pw un unfolding walk_inv_def by auto
  show "?t < dim (match pw cj s)" using t by simp
  {
    fix w assume w: "w < dim (match pw cj s)"
      and m: "match_job_by_worker (match pw cj s) ! w \<noteq> UNASSIGNED"
    show "match_job_by_worker (match pw cj s) ! w < dim (match pw cj s)"
      using inv w m pw len cj unfolding walk_inv_def by (auto simp: nth_list_update)
    show "match_job_by_worker (match pw cj s) ! w \<noteq> ?t"
      using inv w m pw len cj t unfolding walk_inv_def
      by (auto simp: nth_list_update split: if_splits)
    show "match_worker_by_job (match pw cj s) ! (match_job_by_worker (match pw cj s) ! w) = w"
      using inv w m pw len cj unfolding walk_inv_def by (auto simp: nth_list_update)
  }
  {
    fix j assume j: "j < dim (match pw cj s)" and ne: "j \<noteq> ?t"
      and m: "match_worker_by_job (match pw cj s) ! j \<noteq> UNASSIGNED"
    show "match_worker_by_job (match pw cj s) ! j < dim (match pw cj s)"
      using inv j m pw len cj unfolding walk_inv_def by (auto simp: nth_list_update)
    show "match_job_by_worker (match pw cj s) ! (match_worker_by_job (match pw cj s) ! j) = j"
      using inv j m ne pw len cj unfolding walk_inv_def
      by (auto simp: nth_list_update split: if_splits)
  }
qed

lemma matching_size_card:
  "length (match_job_by_worker s) = dim s \<Longrightarrow> matching_size s = card (matched_workers s)"
  unfolding matching_size_def matched_workers_def
  by (simp add: length_filter_conv_card)

lemma matching_inv_cong:
  "match_job_by_worker t = match_job_by_worker s \<Longrightarrow>
   match_worker_by_job t = match_worker_by_job s \<Longrightarrow> dim t = dim s \<Longrightarrow>
   matching_inv t = matching_inv s"
  by (simp add: matching_inv_def)

lemma matched_workers_cong:
  "match_job_by_worker t = match_job_by_worker s \<Longrightarrow> dim t = dim s \<Longrightarrow>
   matched_workers t = matched_workers s"
  by (simp add: matched_workers_def)

lemma same_but_matching_refl [simp]: "same_but_matching s s"
  by (simp add: same_but_matching_def)

lemma same_but_matching_match [simp]: "same_but_matching s (match w j s)"
  by (simp add: same_but_matching_def match_def)

lemma same_but_matching_trans:
  "same_but_matching s t \<Longrightarrow> same_but_matching t u \<Longrightarrow> same_but_matching s u"
  unfolding same_but_matching_def
  by (metis (no_types, lifting) hungarian.surjective hungarian.update_convs(9,10))

lemma same_but_matching_fields:
  assumes "same_but_matching s t"
  shows "rows t = rows s" "cols t = cols s" "dim t = dim s" "cost_matrix t = cost_matrix s"
    "label_by_worker t = label_by_worker s" "label_by_job t = label_by_job s"
    "min_slack_by_job t = min_slack_by_job s"
    "min_slack_worker_by_job t = min_slack_worker_by_job s"
    "parent_worker_by_committed_job t = parent_worker_by_committed_job s"
    "committed_workers t = committed_workers s"
proof -
  have t: "t = s\<lparr>match_job_by_worker := match_job_by_worker t,
           match_worker_by_job := match_worker_by_job t\<rparr>"
    using assms by (simp add: same_but_matching_def)
  show "rows t = rows s" "cols t = cols s" "dim t = dim s" "cost_matrix t = cost_matrix s"
    "label_by_worker t = label_by_worker s" "label_by_job t = label_by_job s"
    "min_slack_by_job t = min_slack_by_job s"
    "min_slack_worker_by_job t = min_slack_worker_by_job s"
    "parent_worker_by_committed_job t = parent_worker_by_committed_job s"
    "committed_workers t = committed_workers s"
    by (subst t, simp)+
qed

lemma augment_sound:
  assumes "augment fuel s pw cj = Some (Inr s')" and "walk_inv s cj"
    and "length (match_job_by_worker s) = dim s" "length (match_worker_by_job s) = dim s"
    and "dim s \<le> UNASSIGNED"
  shows "matching_inv s' \<and> same_but_matching s s' \<and> one_more_matched s s' \<and>
         length (match_job_by_worker s') = dim s \<and> length (match_worker_by_job s') = dim s"
  using assms
proof (induction fuel arbitrary: s pw cj)
  case 0
  then show ?case by simp
next
  case (Suc fuel)
  note inv = Suc.prems(2) and len = Suc.prems(3,4) and le = Suc.prems(5)
  have cj: "cj < dim s" using inv by (simp add: walk_inv_def)
  have cjun: "cj \<noteq> UNASSIGNED" using cj le by simp
  have pw: "pw < dim s"
    using Suc.prems(1) len by (auto split: if_splits)
  let ?t = "match_job_by_worker s ! pw"
  let ?s1 = "match pw cj s"
  show ?case
  proof (cases "?t = UNASSIGNED")
    case True
    then have s': "s' = ?s1"
      using Suc.prems(1) pw cj len by (simp add: augment_step_def)
    have "matched_workers ?s1 = insert pw (matched_workers s)"
      using pw len cjun unfolding matched_workers_def by (auto simp: nth_list_update)
    then have "one_more_matched s ?s1"
      unfolding one_more_matched_def using pw True by blast
    then show ?thesis
      unfolding s' using walk_step_last[OF inv pw len True le] len by simp
  next
    case False
    have tlt: "?t < dim s" using inv pw False unfolding walk_inv_def by blast
    have rec: "augment fuel ?s1 (parent_worker_by_committed_job ?s1 ! ?t) ?t = Some (Inr s')"
      using Suc.prems(1) pw cj len False by (simp add: augment_step_def split: if_splits)
    have ih: "matching_inv s' \<and> same_but_matching ?s1 s' \<and> one_more_matched ?s1 s' \<and>
         length (match_job_by_worker s') = dim ?s1 \<and> length (match_worker_by_job s') = dim ?s1"
      by (rule Suc.IH[OF rec walk_step_next[OF inv pw len False]]) (use len le in simp_all)
    have mw: "matched_workers ?s1 = matched_workers s"
      using pw len cjun False unfolding matched_workers_def
      by (auto simp: nth_list_update)
    have "one_more_matched s s'"
      using ih pw len cjun unfolding one_more_matched_def mw
      by (auto simp: nth_list_update split: if_splits)
    moreover have "same_but_matching s s'"
      using ih same_but_matching_trans[OF same_but_matching_match] by blast
    ultimately show ?thesis using ih by simp
  qed
qed

lemma wf_state_initialize_phase:
  "wf_state s \<Longrightarrow> wf_state (initialize_phase w s)"
  by (simp add: initialize_phase_eq) (simp add: wf_state_def)

lemma wf_state_update_labeling:
  "wf_state s \<Longrightarrow> wf_state (update_labeling sl s)"
  by (simp add: update_labeling_eq) (simp add: wf_state_def)

lemma wf_state_commit_worker:
  "wf_state s \<Longrightarrow> wf_state (commit_worker worker s)"
  by (simp add: commit_worker_eq) (simp add: wf_state_def)

lemma wf_state_relabel: "wf_state s \<Longrightarrow> wf_state (relabel s)"
  by (simp add: relabel_def wf_state_update_labeling)

lemma wf_state_commit_job: "wf_state s \<Longrightarrow> wf_state (commit_job s)"
  using wf_state_relabel[of s] by (simp add: commit_job_def wf_state_def)

lemma initialize_phase_frame:
  assumes "wf_state s"
  shows "rows (initialize_phase w s) = rows s" "cols (initialize_phase w s) = cols s"
    "dim (initialize_phase w s) = dim s" "cost_matrix (initialize_phase w s) = cost_matrix s"
    "label_by_worker (initialize_phase w s) = label_by_worker s"
    "label_by_job (initialize_phase w s) = label_by_job s"
    "match_job_by_worker (initialize_phase w s) = match_job_by_worker s"
    "match_worker_by_job (initialize_phase w s) = match_worker_by_job s"
  by (simp_all add: initialize_phase_eq[OF assms])

lemma update_labeling_frame:
  assumes "wf_state s"
  shows "rows (update_labeling sl s) = rows s" "cols (update_labeling sl s) = cols s"
    "dim (update_labeling sl s) = dim s" "cost_matrix (update_labeling sl s) = cost_matrix s"
    "min_slack_worker_by_job (update_labeling sl s) = min_slack_worker_by_job s"
    "match_job_by_worker (update_labeling sl s) = match_job_by_worker s"
    "match_worker_by_job (update_labeling sl s) = match_worker_by_job s"
    "parent_worker_by_committed_job (update_labeling sl s) = parent_worker_by_committed_job s"
    "committed_workers (update_labeling sl s) = committed_workers s"
  by (simp_all add: update_labeling_eq[OF assms])

lemma relabel_frame:
  assumes "wf_state s"
  shows "rows (relabel s) = rows s" "cols (relabel s) = cols s"
    "dim (relabel s) = dim s" "cost_matrix (relabel s) = cost_matrix s"
    "min_slack_worker_by_job (relabel s) = min_slack_worker_by_job s"
    "match_job_by_worker (relabel s) = match_job_by_worker s"
    "match_worker_by_job (relabel s) = match_worker_by_job s"
    "parent_worker_by_committed_job (relabel s) = parent_worker_by_committed_job s"
    "committed_workers (relabel s) = committed_workers s"
  by (simp_all add: relabel_def update_labeling_frame[OF assms])

lemma commit_job_frame:
  assumes "wf_state s"
  shows "rows (commit_job s) = rows s" "cols (commit_job s) = cols s"
    "dim (commit_job s) = dim s" "cost_matrix (commit_job s) = cost_matrix s"
    "label_by_worker (commit_job s) = label_by_worker (relabel s)"
    "label_by_job (commit_job s) = label_by_job (relabel s)"
    "min_slack_by_job (commit_job s) = min_slack_by_job (relabel s)"
    "min_slack_worker_by_job (commit_job s) = min_slack_worker_by_job s"
    "match_job_by_worker (commit_job s) = match_job_by_worker s"
    "match_worker_by_job (commit_job s) = match_worker_by_job s"
    "parent_worker_by_committed_job (commit_job s)
       = (parent_worker_by_committed_job s)[chosen_job s := chosen_worker s]"
    "committed_workers (commit_job s) = committed_workers s"
  by (simp_all add: commit_job_def relabel_frame[OF assms])

lemma commit_worker_frame:
  assumes "wf_state s"
  shows "rows (commit_worker v s) = rows s" "cols (commit_worker v s) = cols s"
    "dim (commit_worker v s) = dim s" "cost_matrix (commit_worker v s) = cost_matrix s"
    "label_by_worker (commit_worker v s) = label_by_worker s"
    "label_by_job (commit_worker v s) = label_by_job s"
    "match_job_by_worker (commit_worker v s) = match_job_by_worker s"
    "match_worker_by_job (commit_worker v s) = match_worker_by_job s"
    "parent_worker_by_committed_job (commit_worker v s) = parent_worker_by_committed_job s"
    "committed_workers (commit_worker v s) = (committed_workers s)[v := True]"
  by (simp_all add: commit_worker_eq[OF assms])

lemma execute_phase_matching:
  assumes "execute_phase fuel0 fuel s = Some (Inr s')" and "wf_state s" and "matching_inv s"
  shows "wf_state s' \<and> matching_inv s' \<and> one_more_matched s s' \<and> phase_frame s s'"
  using assms
proof (induction fuel arbitrary: s)
  case 0
  then show ?case by simp
next
  case (Suc fuel)
  note wf = Suc.prems(2) and inv = Suc.prems(3)
  let ?j = "chosen_job s"
  let ?s2 = "commit_job s"
  note fr = commit_job_frame[OF wf]
  have wf2: "wf_state ?s2" by (rule wf_state_commit_job[OF wf])
  have inv2: "matching_inv ?s2"
    using inv by (simp add: matching_inv_cong[of ?s2 s] fr)
  have len: "length (match_job_by_worker ?s2) = dim ?s2"
    "length (match_worker_by_job ?s2) = dim ?s2" "dim ?s2 \<le> UNASSIGNED"
    "length (committed_workers ?s2) = dim ?s2"
    using wf2 by (simp_all add: wf_state_def)
  have lenp: "length (parent_worker_by_committed_job (relabel s)) = dim s"
    using wf_state_relabel[OF wf] by (simp add: wf_state_def relabel_frame[OF wf])
  have j: "?j < dim s"
    using Suc.prems(1) unfolding execute_phase_Suc lenp by (auto split: if_splits)
  show ?case
  proof (cases "match_worker_by_job ?s2 ! ?j = UNASSIGNED")
    case True
    then have aug: "augment fuel0 ?s2 (parent_worker_by_committed_job ?s2 ! ?j) ?j = Some (Inr s')"
      using Suc.prems(1) j unfolding execute_phase_Suc lenp by simp
    have winv: "walk_inv ?s2 ?j"
      by (rule matching_inv_walk_inv[OF inv2 _ True len(3)]) (simp add: fr j)
    from augment_sound[OF aug winv len(1,2,3)]
    have r: "matching_inv s'" "same_but_matching ?s2 s'" "one_more_matched ?s2 s'"
      "length (match_job_by_worker s') = dim ?s2" "length (match_worker_by_job s') = dim ?s2"
      by simp_all
    note sf = same_but_matching_fields[OF r(2)]
    have "wf_state s'"
      using wf2 r(4,5) unfolding wf_state_def sf by simp
    moreover have "one_more_matched s s'"
    proof -
      have "matched_workers ?s2 = matched_workers s"
        by (rule matched_workers_cong) (simp_all add: fr)
      then show ?thesis
        using r(3) unfolding one_more_matched_def fr by simp
    qed
    moreover have "phase_frame s s'"
      unfolding phase_frame_def sf by (simp add: fr)
    ultimately show ?thesis using r(1) by simp
  next
    case False
    let ?v = "match_worker_by_job ?s2 ! ?j"
    let ?s3 = "commit_worker ?v ?s2"
    have rec: "execute_phase fuel0 fuel ?s3 = Some (Inr s')"
      using Suc.prems(1) j False unfolding execute_phase_Suc lenp by (simp split: if_splits)
    note fr3 = commit_worker_frame[OF wf2]
    have wf3: "wf_state ?s3" by (rule wf_state_commit_worker[OF wf2])
    have inv3: "matching_inv ?s3"
      using inv2 by (simp add: matching_inv_cong[of ?s3 ?s2] fr3)
    from Suc.IH[OF rec wf3 inv3]
    have ih: "wf_state s'" "matching_inv s'" "one_more_matched ?s3 s'" "phase_frame ?s3 s'"
      by simp_all
    have "one_more_matched s s'"
    proof -
      have "matched_workers ?s3 = matched_workers s"
        by (rule matched_workers_cong) (simp_all add: fr3 fr)
      moreover have "dim ?s3 = dim s" "match_job_by_worker ?s3 = match_job_by_worker s"
        by (simp_all add: fr3 fr)
      ultimately show ?thesis
        using ih(3) unfolding one_more_matched_def by simp
    qed
    moreover have "phase_frame s s'"
      using ih(4) unfolding phase_frame_def by (simp add: fr fr3)
    ultimately show ?thesis using ih by simp
  qed
qed

lemma same_but_matching_slack: "same_but_matching s t \<Longrightarrow> slack t = slack s"
  by (rule slack_cong) (simp_all add: same_but_matching_fields)

lemma greedy_match_invariant:
  assumes init: "P s"
    and step: "\<And>t w j. P t \<Longrightarrow> same_but_matching s t \<Longrightarrow> w < dim s \<Longrightarrow> j < dim s \<Longrightarrow>
        match_job_by_worker t ! w = UNASSIGNED \<Longrightarrow> match_worker_by_job t ! j = UNASSIGNED \<Longrightarrow>
        slack s w j = 0 \<Longrightarrow> P (match w j t)"
  shows "P (greedy_match s) \<and> same_but_matching s (greedy_match s)"
  unfolding greedy_match_def
proof (rule fold_upt_invariant[where I = "\<lambda>k t. P t \<and> same_but_matching s t"], goal_cases)
  case 1
  then show ?case using init by simp
next
  case (2 w t)
  then have d: "dim t = dim s" by (simp add: same_but_matching_fields)
  show ?case
    unfolding d
  proof (rule fold_upt_invariant[where I = "\<lambda>k t. P t \<and> same_but_matching s t"], goal_cases)
    case 1
    then show ?case using 2 by simp
  next
    case (2 j u)
    then have u: "P u" "same_but_matching s u" by simp_all
    show ?case
    proof (cases "match_job_by_worker u ! w = UNASSIGNED
            \<and> match_worker_by_job u ! j = UNASSIGNED \<and> slack u w j = 0")
      case True
      then have "P (match w j u)"
        using step[OF u \<open>w < dim s\<close> \<open>j < dim s\<close>] same_but_matching_slack[OF u(2)] by simp
      moreover have "same_but_matching s (match w j u)"
        by (rule same_but_matching_trans[OF u(2)]) simp
      ultimately show ?thesis using True by simp
    next
      case False
      then show ?thesis using u by auto
    qed
  qed
qed

lemma matching_inv_match:
  assumes inv: "matching_inv s" and w: "w < dim s" and j: "j < dim s"
    and len: "length (match_job_by_worker s) = dim s" "length (match_worker_by_job s) = dim s"
    and un: "match_job_by_worker s ! w = UNASSIGNED" "match_worker_by_job s ! j = UNASSIGNED"
    and le: "dim s \<le> UNASSIGNED"
  shows "matching_inv (match w j s)"
  by (rule walk_step_last[OF matching_inv_walk_inv[OF inv j un(2) le] w len un(1) le])

lemma greedy_match_matching:
  assumes wf: "wf_state s" and inv: "matching_inv s"
  shows "wf_state (greedy_match s) \<and> matching_inv (greedy_match s) \<and>
         same_but_matching s (greedy_match s)"
proof -
  have "(wf_state (greedy_match s) \<and> matching_inv (greedy_match s)) \<and>
        same_but_matching s (greedy_match s)"
  proof (rule greedy_match_invariant[where P = "\<lambda>t. wf_state t \<and> matching_inv t"], goal_cases)
    case 1
    then show ?case using wf inv by simp
  next
    case (2 t w j)
    then have wft: "wf_state t" and invt: "matching_inv t" by simp_all
    have d: "dim t = dim s" using 2(2) by (simp add: same_but_matching_fields)
    have "matching_inv (match w j t)"
      by (rule matching_inv_match[OF invt]) (use 2 wft d in \<open>simp_all add: wf_state_def\<close>)
    then show ?case using wft by simp
  qed
  then show ?thesis by simp
qed

lemma matching_inv_Hungarian: "matching_inv (Hungarian cm ind)"
  by (simp add: matching_inv_def Hungarian_fields)

lemma prepare_matching:
  assumes "wf_multiarray2 cm"
  shows "wf_state (prepare junk (Hungarian cm ind)) \<and> matching_inv (prepare junk (Hungarian cm ind))"
proof -
  let ?s0 = "Hungarian cm ind"
  let ?s2 = "compute_initial_feasible_solution (reduce junk ?s0)"
  have wf2: "wf_state ?s2"
    by (intro wf_state_compute_initial wf_state_reduce wf_state_Hungarian assms)
  have inv2: "matching_inv ?s2"
    using matching_inv_Hungarian[of cm ind] by (simp add: matching_inv_def)
  show ?thesis
    unfolding prepare_def using greedy_match_matching[OF wf2 inv2] by simp
qed



lemma matching_inv_mutual_inverses:
  assumes "matching_inv s" "dim s \<le> UNASSIGNED"
  shows "mutual_inverses s"
  unfolding mutual_inverses_def
proof (intro allI impI)
  fix w j assume wj: "w < dim s" "j < dim s"
  then have "w \<noteq> UNASSIGNED" "j \<noteq> UNASSIGNED" using assms(2) by simp_all
  then show "(match_job_by_worker s ! w = j) = (match_worker_by_job s ! j = w)"
    using assms(1) wj unfolding matching_inv_def by metis
qed

lemma phase_boundary_matching:
  assumes "phase_boundary cm ind s" "wf_multiarray2 cm"
  shows "wf_state s \<and> matching_inv s"
  using assms
proof (induction rule: phase_boundary.induct)
  case after_greedy_match
  then show ?case by (rule prepare_matching)
next
  case (after_phase s fuel0 fuel s')
  then have wf: "wf_state s" and inv: "matching_inv s" by simp_all
  let ?s1 = "initialize_phase (fetch_unmatched_worker s) s"
  have wf1: "wf_state ?s1" by (rule wf_state_initialize_phase[OF wf])
  have inv1: "matching_inv ?s1"
    using inv by (simp add: matching_inv_cong[of ?s1 s] initialize_phase_frame[OF wf])
  show ?case
    using execute_phase_matching[OF after_phase(3) wf1 inv1] by simp
qed

lemma one_more_matched_size:
  assumes "one_more_matched s t" "length (match_job_by_worker s) = dim s"
    "length (match_job_by_worker t) = dim t" "dim t = dim s"
  shows "matching_size t = matching_size s + 1 \<and>
         (\<forall>v<dim s. match_job_by_worker s ! v \<noteq> UNASSIGNED \<longrightarrow>
                    match_job_by_worker t ! v \<noteq> UNASSIGNED)"
proof -
  from assms(1) obtain u where u: "u < dim s" "match_job_by_worker s ! u = UNASSIGNED"
    "matched_workers t = insert u (matched_workers s)"
    unfolding one_more_matched_def by blast
  have fin: "finite (matched_workers s)" unfolding matched_workers_def by simp
  have "u \<notin> matched_workers s" using u(2) unfolding matched_workers_def by simp
  then have "card (matched_workers t) = card (matched_workers s) + 1"
    unfolding u(3) using fin by simp
  moreover have "match_job_by_worker t ! v \<noteq> UNASSIGNED"
    if "v < dim s" "match_job_by_worker s ! v \<noteq> UNASSIGNED" for v
  proof -
    have "v \<in> insert u (matched_workers s)"
      using that by (simp add: matched_workers_def)
    then have "v \<in> matched_workers t" by (simp only: u(3))
    then show ?thesis unfolding matched_workers_def by simp
  qed
  ultimately show ?thesis
    using assms(2,3) by (simp add: matching_size_card)
qed





section \<open>The alternating tree: a phase ends\<close>

lemma wf_stateD:
  assumes "wf_state s"
  shows "dim s \<le> UNASSIGNED" "wf_matrix (dim s) (cost_matrix s)"
    "length (label_by_worker s) = dim s" "length (label_by_job s) = dim s"
    "length (min_slack_by_job s) = dim s" "length (min_slack_worker_by_job s) = dim s"
    "length (match_job_by_worker s) = dim s" "length (match_worker_by_job s) = dim s"
    "length (parent_worker_by_committed_job s) = dim s" "length (committed_workers s) = dim s"
  using assms by (simp_all add: wf_state_def)


lemma chosen_job_props:
  assumes wf: "wf_state s" and j: "chosen_job s < dim s"
  shows "parent_worker_by_committed_job s ! chosen_job s = UNASSIGNED"
    and "chosen_worker s = min_slack_worker_by_job s ! chosen_job s"
    and "chosen_slack s = min_slack_by_job s ! chosen_job s"
    and "chosen_slack s < POSITIVE_INFINITY"
    and "\<forall>j<dim s. parent_worker_by_committed_job s ! j = UNASSIGNED
           \<longrightarrow> chosen_slack s \<le> min_slack_by_job s ! j"
proof -
  have le: "dim s \<le> UNASSIGNED" using wf by (simp add: wf_state_def)
  have ne: "chosen_job s \<noteq> UNASSIGNED" using j le by simp
  note p = select_min_slack_props[OF le]
  show "parent_worker_by_committed_job s ! chosen_job s = UNASSIGNED"
    and "chosen_worker s = min_slack_worker_by_job s ! chosen_job s"
    and "chosen_slack s = min_slack_by_job s ! chosen_job s"
    and "chosen_slack s < POSITIVE_INFINITY"
    and "\<forall>j<dim s. parent_worker_by_committed_job s ! j = UNASSIGNED
           \<longrightarrow> chosen_slack s \<le> min_slack_by_job s ! j"
    using p ne by blast+
qed

lemma commit_step_fields:
  assumes wf: "wf_state s"
  defines "s3 \<equiv> commit_worker (match_worker_by_job s ! chosen_job s) (commit_job s)"
  shows "wf_state s3" "dim s3 = dim s" "rows s3 = rows s" "cols s3 = cols s"
    "cost_matrix s3 = cost_matrix s"
    "match_job_by_worker s3 = match_job_by_worker s"
    "match_worker_by_job s3 = match_worker_by_job s"
    "parent_worker_by_committed_job s3
       = (parent_worker_by_committed_job s)[chosen_job s := chosen_worker s]"
    "committed_workers s3 = (committed_workers s)[match_worker_by_job s ! chosen_job s := True]"
    "label_by_worker s3 = label_by_worker (relabel s)"
    "label_by_job s3 = label_by_job (relabel s)"
    "\<forall>j<dim s. min_slack_worker_by_job s3 ! j = match_worker_by_job s ! chosen_job s
               \<or> min_slack_worker_by_job s3 ! j = min_slack_worker_by_job s ! j"
proof -
  have wf2: "wf_state (commit_job s)" by (rule wf_state_commit_job[OF wf])
  note fr2 = commit_job_frame[OF wf]
  note fr3 = commit_worker_frame[OF wf2]
  show "wf_state s3" unfolding s3_def by (rule wf_state_commit_worker[OF wf2])
  show "dim s3 = dim s" "rows s3 = rows s" "cols s3 = cols s" "cost_matrix s3 = cost_matrix s"
    "match_job_by_worker s3 = match_job_by_worker s"
    "match_worker_by_job s3 = match_worker_by_job s"
    "parent_worker_by_committed_job s3
       = (parent_worker_by_committed_job s)[chosen_job s := chosen_worker s]"
    "committed_workers s3 = (committed_workers s)[match_worker_by_job s ! chosen_job s := True]"
    "label_by_worker s3 = label_by_worker (relabel s)"
    "label_by_job s3 = label_by_job (relabel s)"
    unfolding s3_def by (simp_all add: fr3 fr2)
  show "\<forall>j<dim s. min_slack_worker_by_job s3 ! j = match_worker_by_job s ! chosen_job s
               \<or> min_slack_worker_by_job s3 ! j = min_slack_worker_by_job s ! j"
    unfolding s3_def commit_worker_eq[OF wf2] by (simp add: fr2)
qed

lemma tree_inv_step:
  assumes tr: "tree_inv s" and j: "chosen_job s < dim s"
    and m: "match_worker_by_job s ! chosen_job s \<noteq> UNASSIGNED"
  defines "s3 \<equiv> commit_worker (match_worker_by_job s ! chosen_job s) (commit_job s)"
  shows "tree_inv s3" and "card (uncommitted_jobs s3) < card (uncommitted_jobs s)"
proof -
  let ?n = "dim s"
  let ?jm = "chosen_job s"
  let ?cw = "chosen_worker s"
  let ?v = "match_worker_by_job s ! ?jm"
  from tr obtain rk where wf: "wf_state s" and inv: "matching_inv s" and rk: "tree_ranked s rk"
    unfolding tree_inv_def by blast
  note len = wf_stateD[OF wf]
  note f = commit_step_fields[OF wf, folded s3_def]
  note cj = chosen_job_props[OF wf j]
  have T1: "\<And>j. j < ?n \<Longrightarrow> min_slack_worker_by_job s ! j < ?n
                 \<and> committed_workers s ! (min_slack_worker_by_job s ! j)"
    and T2: "\<And>j. j < ?n \<Longrightarrow> parent_worker_by_committed_job s ! j \<noteq> UNASSIGNED \<Longrightarrow>
        parent_worker_by_committed_job s ! j < ?n
        \<and> committed_workers s ! (parent_worker_by_committed_job s ! j)
        \<and> match_worker_by_job s ! j \<noteq> UNASSIGNED
        \<and> committed_workers s ! (match_worker_by_job s ! j)
        \<and> rk (parent_worker_by_committed_job s ! j) < rk (match_worker_by_job s ! j)"
    and T3: "\<And>w. w < ?n \<Longrightarrow> committed_workers s ! w \<Longrightarrow>
        match_job_by_worker s ! w = UNASSIGNED
        \<or> parent_worker_by_committed_job s ! (match_job_by_worker s ! w) \<noteq> UNASSIGNED"
    and T4: "\<And>w. w < ?n \<Longrightarrow> committed_workers s ! w \<Longrightarrow> rk w < card (committed_set s)"
    and T5: "\<exists>r<?n. committed_workers s ! r \<and> match_job_by_worker s ! r = UNASSIGNED"
    using rk unfolding tree_ranked_def by blast+
  have v: "?v < ?n" "match_job_by_worker s ! ?v = ?jm"
    using inv j m unfolding matching_inv_def by blast+
  have cw: "?cw < ?n" "committed_workers s ! ?cw"
    using T1[OF j] cj(2) by simp_all
  have cwun: "?cw \<noteq> UNASSIGNED" using cw(1) len(1) by simp
  have vnc: "\<not> committed_workers s ! ?v"
    using T3[OF v(1)] v(2) cj(1) j len(1) by auto
  have mrange: "\<And>w. w < ?n \<Longrightarrow> match_job_by_worker s ! w \<noteq> UNASSIGNED \<Longrightarrow>
      match_job_by_worker s ! w < ?n"
    using inv unfolding matching_inv_def by blast
  have cs: "committed_set s3 = insert ?v (committed_set s)"
    unfolding committed_set_def f using v(1) len(10) by (auto simp: nth_list_update)
  have fin: "finite (committed_set s)" unfolding committed_set_def by simp
  have vnotin: "?v \<notin> committed_set s" using vnc unfolding committed_set_def by simp
  have card3: "card (committed_set s3) = Suc (card (committed_set s))"
    unfolding cs using fin vnotin by simp
  let ?rk = "rk(?v := card (committed_set s))"
  have c3: "committed_workers s3 ! w = (w = ?v \<or> committed_workers s ! w)" if "w < ?n" for w
    unfolding f using that len(10) v(1) by (auto simp: nth_list_update)
  have p3: "parent_worker_by_committed_job s3 ! j'
      = (if j' = ?jm then ?cw else parent_worker_by_committed_job s ! j')" if "j' < ?n" for j'
    unfolding f using that len(9) j by (auto simp: nth_list_update)
  have "tree_ranked s3 ?rk"
    unfolding tree_ranked_def f(2) f(6) f(7) card3
  proof (intro conjI allI impI)
    fix j' assume j': "j' < ?n"
    have "min_slack_worker_by_job s3 ! j' = ?v
               \<or> min_slack_worker_by_job s3 ! j' = min_slack_worker_by_job s ! j'"
      using f(12) j' by blast
    then show "min_slack_worker_by_job s3 ! j' < ?n"
      and "committed_workers s3 ! (min_slack_worker_by_job s3 ! j')"
      using T1[OF j'] v(1) c3 by auto
  next
    fix j' assume j': "j' < ?n" and pj: "parent_worker_by_committed_job s3 ! j' \<noteq> UNASSIGNED"
    show "parent_worker_by_committed_job s3 ! j' < ?n"
      using T2[OF j'] pj cw(1) by (auto simp: p3[OF j'] split: if_splits)
    show "committed_workers s3 ! (parent_worker_by_committed_job s3 ! j')"
      using T2[OF j'] pj cw c3 by (auto simp: p3[OF j'] split: if_splits)
    show "match_worker_by_job s ! j' \<noteq> UNASSIGNED"
      using T2[OF j'] pj m by (auto simp: p3[OF j'] split: if_splits)
    show "committed_workers s3 ! (match_worker_by_job s ! j')"
    proof (cases "j' = ?jm")
      case True
      then show ?thesis using c3[OF v(1)] by simp
    next
      case False
      then have pp: "parent_worker_by_committed_job s ! j' \<noteq> UNASSIGNED"
        using pj by (simp add: p3[OF j'])
      have "match_worker_by_job s ! j' < ?n"
        using T2[OF j' pp] inv j' unfolding matching_inv_def by blast
      then show ?thesis using T2[OF j' pp] c3 by simp
    qed
    show "?rk (parent_worker_by_committed_job s3 ! j') < ?rk (match_worker_by_job s ! j')"
    proof (cases "j' = ?jm")
      case True
      have "?cw \<noteq> ?v" using cw(2) vnc by auto
      then show ?thesis
        using True T4[OF cw] by (simp add: p3[OF j])
    next
      case False
      then have pp: "parent_worker_by_committed_job s ! j' \<noteq> UNASSIGNED"
        using pj by (simp add: p3[OF j'])
      have "parent_worker_by_committed_job s ! j' \<noteq> ?v" "match_worker_by_job s ! j' \<noteq> ?v"
        using T2[OF j' pp] vnc by auto
      then show ?thesis
        using False T2[OF j' pp] by (simp add: p3[OF j'])
    qed
  next
    fix w assume w: "w < ?n" and c: "committed_workers s3 ! w"
    show "match_job_by_worker s ! w = UNASSIGNED
        \<or> parent_worker_by_committed_job s3 ! (match_job_by_worker s ! w) \<noteq> UNASSIGNED"
    proof (cases "match_job_by_worker s ! w = UNASSIGNED")
      case True
      then show ?thesis by simp
    next
      case False
      note mr = mrange[OF w False]
      show ?thesis
      proof (cases "w = ?v")
        case True
        then show ?thesis using v(2) cwun by (simp add: p3[OF j])
      next
        case False
        then have "committed_workers s ! w" using c c3[OF w] by simp
        then show ?thesis
          using T3[OF w] cwun by (auto simp: p3[OF mr])
      qed
    qed
    show "?rk w < Suc (card (committed_set s))"
    proof (cases "w = ?v")
      case True
      then show ?thesis by simp
    next
      case False
      then have "committed_workers s ! w" using c c3[OF w] by simp
      then show ?thesis using T4[OF w] False by simp
    qed
  next
    from T5 obtain r where "r < ?n" "committed_workers s ! r"
      "match_job_by_worker s ! r = UNASSIGNED" by blast
    then show "\<exists>r<?n. committed_workers s3 ! r \<and> match_job_by_worker s ! r = UNASSIGNED"
      using c3 by blast
  qed
  moreover have "matching_inv s3"
    using inv by (simp add: matching_inv_cong[of s3 s] f)
  ultimately show "tree_inv s3"
    unfolding tree_inv_def using f(1) by blast
  have "uncommitted_jobs s3 = uncommitted_jobs s - {?jm}"
    unfolding uncommitted_jobs_def f(2) using p3 cwun cj(1) by (auto split: if_splits)
  moreover have "?jm \<in> uncommitted_jobs s"
    unfolding uncommitted_jobs_def using j cj(1) by simp
  moreover have "finite (uncommitted_jobs s)" unfolding uncommitted_jobs_def by simp
  ultimately show "card (uncommitted_jobs s3) < card (uncommitted_jobs s)"
    by (metis card_Diff1_less)
qed

lemma augment_terminates:
  assumes rk: "tree_ranked s0 rk" and inv0: "matching_inv s0"
    and d: "dim s = dim s0"
    and lens: "length (match_job_by_worker s) = dim s0" "length (match_worker_by_job s) = dim s0"
      "length (parent_worker_by_committed_job s) = dim s0"
    and par: "\<forall>j<dim s0. parent_worker_by_committed_job s0 ! j \<noteq> UNASSIGNED \<longrightarrow>
        parent_worker_by_committed_job s ! j = parent_worker_by_committed_job s0 ! j"
    and agree: "\<forall>w<dim s0. rk w \<le> rk pw \<longrightarrow> match_job_by_worker s ! w = match_job_by_worker s0 ! w"
    and pw: "pw < dim s0" "committed_workers s0 ! pw" and cj: "cj < dim s0"
    and fuel: "rk pw < fuel"
  shows "\<exists>s'. augment fuel s pw cj = Some (Inr s')"
  using d lens par agree pw cj fuel
proof (induction fuel arbitrary: s pw cj)
  case 0
  then show ?case by simp
next
  case (Suc fuel)
  let ?n = "dim s0"
  let ?t = "match_job_by_worker s ! pw"
  let ?s1 = "match pw cj s"
  have t0: "?t = match_job_by_worker s0 ! pw"
    using Suc.prems(6,7) by simp
  show ?case
  proof (cases "?t = UNASSIGNED")
    case True
    then show ?thesis
      using Suc.prems by (simp add: augment_step_def)
  next
    case False
    have tn: "?t < ?n" and tb: "match_worker_by_job s0 ! ?t = pw"
      using inv0 Suc.prems(7) False unfolding t0 matching_inv_def by blast+
    have tc: "parent_worker_by_committed_job s0 ! ?t \<noteq> UNASSIGNED"
      using rk Suc.prems(7,8) False unfolding t0 tree_ranked_def by blast
    let ?p = "parent_worker_by_committed_job s0 ! ?t"
    have p: "?p < ?n" "committed_workers s0 ! ?p" "rk ?p < rk pw"
      using rk tn tc tb unfolding tree_ranked_def by (blast, blast, metis)
    have pe: "parent_worker_by_committed_job ?s1 ! ?t = ?p"
      using Suc.prems(5) tn tc by simp
    have step: "augment (Suc fuel) s pw cj = augment fuel ?s1 ?p ?t"
      using Suc.prems(2,3,4,7,9) False tn pe by (simp add: augment_step_def)
    have "\<exists>s'. augment fuel ?s1 ?p ?t = Some (Inr s')"
    proof (rule Suc.IH)
      show "dim ?s1 = ?n" using Suc.prems(1) by simp
      show "length (match_job_by_worker ?s1) = ?n" "length (match_worker_by_job ?s1) = ?n"
        "length (parent_worker_by_committed_job ?s1) = ?n"
        using Suc.prems(2,3,4) by simp_all
      show "\<forall>j<?n. parent_worker_by_committed_job s0 ! j \<noteq> UNASSIGNED \<longrightarrow>
        parent_worker_by_committed_job ?s1 ! j = parent_worker_by_committed_job s0 ! j"
        using Suc.prems(5) by simp
      show "\<forall>w<?n. rk w \<le> rk ?p \<longrightarrow>
          match_job_by_worker ?s1 ! w = match_job_by_worker s0 ! w"
      proof (intro allI impI)
        fix w assume w: "w < ?n" "rk w \<le> rk ?p"
        then have "w \<noteq> pw" using p(3) by auto
        moreover have "rk w \<le> rk pw" using w(2) p(3) by simp
        ultimately show "match_job_by_worker ?s1 ! w = match_job_by_worker s0 ! w"
          using Suc.prems(6) w(1) by simp
      qed
      show "?p < ?n" "committed_workers s0 ! ?p" by (rule p)+
      show "?t < ?n" by (rule tn)
      show "rk ?p < fuel" using p(3) Suc.prems(10) by simp
    qed
    then show ?thesis unfolding step .
  qed
qed

lemma card_committed_set_le: "card (committed_set s) \<le> dim s"
proof -
  have "committed_set s \<subseteq> {0..<dim s}" unfolding committed_set_def by auto
  then have "card (committed_set s) \<le> card {0..<dim s}" by (intro card_mono) simp_all
  then show ?thesis by simp
qed


lemma walk_from_tree_terminates:
  assumes tr: "tree_inv s" and j: "chosen_job s < dim s" and fuel: "dim s \<le> fuel0"
  shows "\<exists>s'. augment fuel0 (commit_job s)
            (parent_worker_by_committed_job (commit_job s) ! chosen_job s) (chosen_job s)
          = Some (Inr s')"
proof -
  from tr obtain rk where wf: "wf_state s" and inv: "matching_inv s" and rk: "tree_ranked s rk"
    unfolding tree_inv_def by blast
  note len = wf_stateD[OF wf]
  note fr = commit_job_frame[OF wf]
  note cj = chosen_job_props[OF wf j]
  have cw: "chosen_worker s < dim s" "committed_workers s ! chosen_worker s"
    using rk j cj(2) unfolding tree_ranked_def by auto
  have pe: "parent_worker_by_committed_job (commit_job s) ! chosen_job s = chosen_worker s"
    using j len(9) by (simp add: fr)
  have "rk (chosen_worker s) < card (committed_set s)"
    using rk cw unfolding tree_ranked_def by blast
  then have rkf: "rk (chosen_worker s) < fuel0"
    using card_committed_set_le[of s] fuel by simp
  show ?thesis
    unfolding pe
  proof (rule augment_terminates[OF rk inv])
    show "\<forall>j<dim s. parent_worker_by_committed_job s ! j \<noteq> UNASSIGNED \<longrightarrow>
        parent_worker_by_committed_job (commit_job s) ! j = parent_worker_by_committed_job s ! j"
      using cj(1) j len(9) by (auto simp: fr nth_list_update)
  qed (use len cw j rkf in \<open>simp_all add: fr\<close>)
qed

lemma execute_phase_terminates:
  assumes "tree_inv s" and "card (uncommitted_jobs s) < fuel" and "dim s \<le> fuel0"
  shows "execute_phase fuel0 fuel s \<noteq> None"
  using assms
proof (induction fuel arbitrary: s)
  case 0
  then show ?case by simp
next
  case (Suc fuel)
  from Suc.prems(1) have wf: "wf_state s" and inv: "matching_inv s"
    unfolding tree_inv_def by blast+
  note len = wf_stateD[OF wf]
  note fr = commit_job_frame[OF wf]
  have lenp: "length (parent_worker_by_committed_job (relabel s)) = dim s"
    using wf_state_relabel[OF wf] by (simp add: wf_state_def relabel_frame[OF wf])
  show ?case
  proof (cases "chosen_job s < dim s")
    case False
    then show ?thesis unfolding execute_phase_Suc lenp by simp
  next
    case j: True
    show ?thesis
    proof (cases "match_worker_by_job s ! chosen_job s = UNASSIGNED")
      case True
      from walk_from_tree_terminates[OF Suc.prems(1) j Suc.prems(3)]
      show ?thesis
        unfolding execute_phase_Suc lenp using j True by (auto simp: fr)
    next
      case False
      let ?v = "match_worker_by_job s ! chosen_job s"
      have v: "?v < dim s" using inv j False unfolding matching_inv_def by blast
      note st = tree_inv_step[OF Suc.prems(1) j False]
      have d3: "dim (commit_worker ?v (commit_job s)) = dim s"
        by (rule commit_step_fields[OF wf])
      have "execute_phase fuel0 fuel (commit_worker ?v (commit_job s)) \<noteq> None"
        by (rule Suc.IH[OF st(1)]) (use st(2) Suc.prems(2,3) d3 in simp_all)
      then show ?thesis
        unfolding execute_phase_Suc lenp using j False v len(10) by (simp add: fr)
    qed
  qed
qed


section \<open>Labels and slacks: a phase finds a job\<close>

lemma relabel_labels:
  assumes wf: "wf_state s"
  shows "w < dim s \<Longrightarrow> label_by_worker (relabel s) ! w
           = label_by_worker s ! w + (if committed_workers s ! w then raise s else 0)"
    and "j < dim s \<Longrightarrow> label_by_job (relabel s) ! j
           = label_by_job s ! j
             - (if parent_worker_by_committed_job s ! j \<noteq> UNASSIGNED then raise s else 0)"
    and "j < dim s \<Longrightarrow> min_slack_by_job (relabel s) ! j
           = min_slack_by_job s ! j
             - (if parent_worker_by_committed_job s ! j = UNASSIGNED then raise s else 0)"
  by (simp_all add: relabel_def raise_def update_labeling_eq[OF wf])

lemma slack_relabel:
  assumes wf: "wf_state s" and w: "w < dim s" and j: "j < dim s"
  shows "slack (relabel s) w j
           = slack s w j - (if committed_workers s ! w then raise s else 0)
             + (if parent_worker_by_committed_job s ! j \<noteq> UNASSIGNED then raise s else 0)"
  unfolding slack_def relabel_labels(1)[OF wf w] relabel_labels(2)[OF wf j]
  by (simp add: relabel_frame[OF wf])

lemma slack_commit_job: "wf_state s \<Longrightarrow> slack (commit_job s) = slack (relabel s)"
  by (rule slack_cong) (simp_all add: commit_job_frame relabel_frame)

lemma raise_nonneg: "0 \<le> raise s"
  by (simp add: raise_def)

lemma tree_inv_facts:
  assumes "tree_inv s"
  shows "wf_state s" "matching_inv s"
    "\<And>j. j < dim s \<Longrightarrow> min_slack_worker_by_job s ! j < dim s
                 \<and> committed_workers s ! (min_slack_worker_by_job s ! j)"
    "\<And>j. j < dim s \<Longrightarrow> parent_worker_by_committed_job s ! j \<noteq> UNASSIGNED \<Longrightarrow>
        parent_worker_by_committed_job s ! j < dim s
        \<and> committed_workers s ! (parent_worker_by_committed_job s ! j)
        \<and> match_worker_by_job s ! j \<noteq> UNASSIGNED
        \<and> committed_workers s ! (match_worker_by_job s ! j)"
    "\<And>w. w < dim s \<Longrightarrow> committed_workers s ! w \<Longrightarrow>
        match_job_by_worker s ! w = UNASSIGNED
        \<or> parent_worker_by_committed_job s ! (match_job_by_worker s ! w) \<noteq> UNASSIGNED"
    "\<exists>r<dim s. committed_workers s ! r \<and> match_job_by_worker s ! r = UNASSIGNED"
proof -
  from assms obtain rk where a: "wf_state s" "matching_inv s" "tree_ranked s rk"
    unfolding tree_inv_def by blast
  show "wf_state s" "matching_inv s" by (rule a)+
  show "\<And>j. j < dim s \<Longrightarrow> min_slack_worker_by_job s ! j < dim s
                 \<and> committed_workers s ! (min_slack_worker_by_job s ! j)"
    using a(3) unfolding tree_ranked_def by blast
  show "\<And>j. j < dim s \<Longrightarrow> parent_worker_by_committed_job s ! j \<noteq> UNASSIGNED \<Longrightarrow>
        parent_worker_by_committed_job s ! j < dim s
        \<and> committed_workers s ! (parent_worker_by_committed_job s ! j)
        \<and> match_worker_by_job s ! j \<noteq> UNASSIGNED
        \<and> committed_workers s ! (match_worker_by_job s ! j)"
    using a(3) unfolding tree_ranked_def by blast
  show "\<And>w. w < dim s \<Longrightarrow> committed_workers s ! w \<Longrightarrow>
        match_job_by_worker s ! w = UNASSIGNED
        \<or> parent_worker_by_committed_job s ! (match_job_by_worker s ! w) \<noteq> UNASSIGNED"
    using a(3) unfolding tree_ranked_def by blast
  show "\<exists>r<dim s. committed_workers s ! r \<and> match_job_by_worker s ! r = UNASSIGNED"
    using a(3) unfolding tree_ranked_def by blast
qed

text \<open>A matched pair lies wholly inside the tree or wholly outside it.\<close>

lemma matched_pair_committed:
  assumes tr: "tree_inv s" and w: "w < dim s"
    and m: "match_job_by_worker s ! w \<noteq> UNASSIGNED"
  shows "match_job_by_worker s ! w < dim s"
    and "committed_workers s ! w
         = (parent_worker_by_committed_job s ! (match_job_by_worker s ! w) \<noteq> UNASSIGNED)"
proof -
  note t = tree_inv_facts[OF tr]
  let ?j = "match_job_by_worker s ! w"
  have jn: "?j < dim s" using t(2) w m unfolding matching_inv_def by blast
  have b: "match_worker_by_job s ! ?j = w" using t(2) w m unfolding matching_inv_def by blast
  show "?j < dim s" by (rule jn)
  show "committed_workers s ! w = (parent_worker_by_committed_job s ! ?j \<noteq> UNASSIGNED)"
    using t(4)[OF jn] t(5)[OF w] m b by auto
qed

lemma phase_inv_commit_job:
  assumes pi: "phase_inv s" and j: "chosen_job s < dim s"
  shows "dual_feasible (commit_job s)" "matched_tight (commit_job s)"
    "slack_records (commit_job s)" "tree_tight (commit_job s)"
proof -
  let ?n = "dim s"
  let ?jm = "chosen_job s"
  let ?s2 = "commit_job s"
  from pi have tr: "tree_inv s" and D1: "dual_feasible s" and D7: "matched_tight s"
    and D56: "slack_records s" and D8: "tree_tight s"
    unfolding phase_inv_def by blast+
  note tf = tree_inv_facts[OF tr]
  note wf = tf(1) and inv = tf(2) and T1 = tf(3) and T2 = tf(4)
  note len = wf_stateD[OF wf]
  note fr = commit_job_frame[OF wf]
  note cj = chosen_job_props[OF wf j]
  have sl2: "slack ?s2 w j' = slack s w j' - (if committed_workers s ! w then raise s else 0)
             + (if parent_worker_by_committed_job s ! j' \<noteq> UNASSIGNED then raise s else 0)"
    if "w < ?n" "j' < ?n" for w j'
    unfolding slack_commit_job[OF wf] by (rule slack_relabel[OF wf that])
  have cw: "chosen_worker s < ?n" "committed_workers s ! chosen_worker s"
    using T1[OF j] cj(2) by simp_all
  have cwun: "chosen_worker s \<noteq> UNASSIGNED" using cw(1) len(1) by simp
  have p2: "parent_worker_by_committed_job ?s2 ! j'
      = (if j' = ?jm then chosen_worker s else parent_worker_by_committed_job s ! j')"
    if "j' < ?n" for j'
    using that j len(9) by (simp add: fr nth_list_update)
  have rec: "min_slack_by_job s ! j' = slack s (min_slack_worker_by_job s ! j') j'"
    "\<And>w. w < ?n \<Longrightarrow> committed_workers s ! w \<Longrightarrow> min_slack_by_job s ! j' \<le> slack s w j'"
    if "j' < ?n" "parent_worker_by_committed_job s ! j' = UNASSIGNED" for j'
    using D56 that unfolding slack_records_def by blast+
  have feas: "0 \<le> slack s w j'" if "w < ?n" "j' < ?n" for w j'
    using D1 that unfolding dual_feasible_def by blast
  have delta: "chosen_slack s = slack s (chosen_worker s) ?jm"
    using rec(1)[OF j cj(1)] cj(2,3) by simp
  have dpos: "0 \<le> chosen_slack s" unfolding delta by (rule feas[OF cw(1) j])
  have raise: "raise s = chosen_slack s" using dpos by (simp add: raise_def)
  have rmin: "raise s \<le> min_slack_by_job s ! j'"
    if "j' < ?n" "parent_worker_by_committed_job s ! j' = UNASSIGNED" for j'
    unfolding raise using cj(5) that by blast
  show "dual_feasible ?s2"
    unfolding dual_feasible_def fr
  proof (intro allI impI)
    fix w j' assume wj: "w < ?n" "j' < ?n"
    show "0 \<le> slack ?s2 w j'"
    proof (cases "committed_workers s ! w \<and> parent_worker_by_committed_job s ! j' = UNASSIGNED")
      case True
      then have "raise s \<le> slack s w j'"
        using rmin[OF wj(2)] rec(2)[OF wj(2) _ wj(1)] by force
      then show ?thesis using True by (simp add: sl2[OF wj])
    next
      case False
      then show ?thesis
        using feas[OF wj] raise_nonneg[of s] by (auto simp: sl2[OF wj])
    qed
  qed
  show "matched_tight ?s2"
    unfolding matched_tight_def fr
  proof (intro allI impI)
    fix w assume w: "w < ?n" and m: "match_job_by_worker s ! w \<noteq> UNASSIGNED"
    note mp = matched_pair_committed[OF tr w m]
    have "slack s w (match_job_by_worker s ! w) = 0"
      using D7 w m unfolding matched_tight_def by blast
    then show "slack ?s2 w (match_job_by_worker s ! w) = 0"
      using mp(2) by (simp add: sl2[OF w mp(1)])
  qed
  show "tree_tight ?s2"
    unfolding tree_tight_def fr(3)
  proof (intro allI impI)
    fix j' assume j': "j' < ?n" and pj: "parent_worker_by_committed_job ?s2 ! j' \<noteq> UNASSIGNED"
    show "slack ?s2 (parent_worker_by_committed_job ?s2 ! j') j' = 0"
    proof (cases "j' = ?jm")
      case True
      show ?thesis
        unfolding True p2[OF j] using cw(2) cj(1) delta raise
        by (simp add: sl2[OF cw(1) j])
    next
      case False
      then have pp: "parent_worker_by_committed_job s ! j' \<noteq> UNASSIGNED"
        using pj by (simp add: p2[OF j'])
      have "slack s (parent_worker_by_committed_job s ! j') j' = 0"
        using D8 j' pp unfolding tree_tight_def by blast
      then show ?thesis
        using False T2[OF j' pp] pp by (simp add: p2[OF j'] sl2[OF _ j'])
    qed
  qed
  show "slack_records ?s2"
    unfolding slack_records_def fr(3)
  proof (intro allI impI conjI)
    fix j' assume j': "j' < ?n" and pj: "parent_worker_by_committed_job ?s2 ! j' = UNASSIGNED"
    have ne: "j' \<noteq> ?jm" using pj cwun by (auto simp: p2[OF j'])
    then have pu: "parent_worker_by_committed_job s ! j' = UNASSIGNED"
      using pj by (simp add: p2[OF j'])
    have ms2: "min_slack_by_job ?s2 ! j' = min_slack_by_job s ! j' - raise s"
      using pu by (simp add: fr relabel_labels(3)[OF wf j'])
    show "min_slack_by_job ?s2 ! j' = slack ?s2 (min_slack_worker_by_job ?s2 ! j') j'"
      unfolding ms2 using T1[OF j'] pu rec(1)[OF j' pu]
      by (simp add: fr sl2[OF _ j'])
    fix w assume w: "w < ?n" and c: "committed_workers ?s2 ! w"
    then have "committed_workers s ! w" by (simp add: fr)
    then show "min_slack_by_job ?s2 ! j' \<le> slack ?s2 w j'"
      unfolding ms2 using rec(2)[OF j' pu w] pu by (simp add: sl2[OF w j'])
  qed
qed

lemma labels_bounded_commit_job:
  assumes pi: "phase_inv s" and lb: "labels_bounded s"
  shows "labels_bounded (commit_job s)"
proof -
  from pi have tr: "tree_inv s" unfolding phase_inv_def by blast
  note tf = tree_inv_facts[OF tr]
  note wf = tf(1)
  note fr = commit_job_frame[OF wf]
  show ?thesis
    unfolding labels_bounded_def fr
  proof (intro conjI allI impI)
    fix w assume w: "w < dim s"
    show "0 \<le> label_by_worker (relabel s) ! w"
      using lb w raise_nonneg[of s] unfolding labels_bounded_def
      by (simp add: relabel_labels(1)[OF wf w])
  next
    fix j assume j: "j < dim s" and m: "match_worker_by_job s ! j = UNASSIGNED"
    have "parent_worker_by_committed_job s ! j = UNASSIGNED"
      using tf(4)[OF j] m by blast
    then show "0 \<le> label_by_job (relabel s) ! j"
      using lb j m unfolding labels_bounded_def by (simp add: relabel_labels(2)[OF wf j])
  next
    fix w j assume "w < dim s" "j < dim s"
    then show "at2 (cost_matrix s) w j < POSITIVE_INFINITY"
      using lb unfolding labels_bounded_def by blast
  qed
qed

lemma phase_inv_step:
  assumes pi: "phase_inv s" and j: "chosen_job s < dim s"
    and m: "match_worker_by_job s ! chosen_job s \<noteq> UNASSIGNED"
  defines "s3 \<equiv> commit_worker (match_worker_by_job s ! chosen_job s) (commit_job s)"
  shows "phase_inv s3" and "labels_bounded s \<Longrightarrow> labels_bounded s3"
proof -
  let ?n = "dim s"
  let ?s2 = "commit_job s"
  let ?v = "match_worker_by_job s ! chosen_job s"
  from pi have tr: "tree_inv s" unfolding phase_inv_def by blast
  note tf = tree_inv_facts[OF tr]
  note wf = tf(1)
  have wf2: "wf_state ?s2" by (rule wf_state_commit_job[OF wf])
  note fr2 = commit_job_frame[OF wf]
  note fr3 = commit_worker_frame[OF wf2]
  note c2 = phase_inv_commit_job[OF pi j]
  have v: "?v < ?n" using tf(2) j m unfolding matching_inv_def by blast
  have d3: "dim s3 = ?n" unfolding s3_def by (simp add: fr3 fr2)
  have sl3: "slack s3 = slack ?s2"
    unfolding s3_def by (rule slack_cong) (simp_all add: fr3)
  have tr3: "tree_inv s3" unfolding s3_def by (rule tree_inv_step[OF tr j m])
  have "dual_feasible s3"
    using c2(1) unfolding dual_feasible_def d3 sl3 by (simp add: fr2)
  moreover have "matched_tight s3"
    using c2(2) unfolding matched_tight_def d3 sl3 unfolding s3_def by (simp add: fr3 fr2)
  moreover have "tree_tight s3"
    using c2(4) unfolding tree_tight_def d3 sl3 unfolding s3_def by (simp add: fr3 fr2(3))
  moreover have "slack_records s3"
    unfolding slack_records_def d3 sl3
  proof (intro allI impI conjI)
    fix j' assume j': "j' < ?n" and pj: "parent_worker_by_committed_job s3 ! j' = UNASSIGNED"
    have pj2: "parent_worker_by_committed_job ?s2 ! j' = UNASSIGNED"
      using pj unfolding s3_def by (simp add: fr3)
    have old: "min_slack_by_job ?s2 ! j' = slack ?s2 (min_slack_worker_by_job ?s2 ! j') j'"
      "\<And>w. w < ?n \<Longrightarrow> committed_workers ?s2 ! w \<Longrightarrow> min_slack_by_job ?s2 ! j' \<le> slack ?s2 w j'"
      using c2(3) j' pj2 unfolding slack_records_def fr2(3) by blast+
    have ms3: "min_slack_by_job s3 ! j'
        = (if slack ?s2 ?v j' < min_slack_by_job ?s2 ! j' then slack ?s2 ?v j'
           else min_slack_by_job ?s2 ! j')"
      and mw3: "min_slack_worker_by_job s3 ! j'
        = (if slack ?s2 ?v j' < min_slack_by_job ?s2 ! j' then ?v
           else min_slack_worker_by_job ?s2 ! j')"
      unfolding s3_def commit_worker_eq[OF wf2] using j' pj2 by (simp_all add: fr2(3,10))
    show "min_slack_by_job s3 ! j' = slack ?s2 (min_slack_worker_by_job s3 ! j') j'"
      unfolding ms3 mw3 using old(1) by simp
    fix w assume w: "w < ?n" and c: "committed_workers s3 ! w"
    have "w = ?v \<or> committed_workers ?s2 ! w"
      using c w v wf_stateD(10)[OF wf2] unfolding s3_def
      by (auto simp: fr3 fr2(3) nth_list_update split: if_splits)
    then show "min_slack_by_job s3 ! j' \<le> slack ?s2 w j'"
      unfolding ms3 using old(2)[OF w] by auto
  qed
  ultimately show "phase_inv s3"
    unfolding phase_inv_def using tr3 by blast
  show "labels_bounded s3" if lb: "labels_bounded s"
    using labels_bounded_commit_job[OF pi lb] unfolding labels_bounded_def d3
    unfolding s3_def by (simp add: fr3 fr2(3))
qed

lemma augment_pairs:
  assumes "augment fuel s pw cj = Some (Inr s')"
    and "parent_worker_by_committed_job s ! cj = pw"
    and "length (match_job_by_worker s) = n" "length (match_worker_by_job s) = n"
      "length (parent_worker_by_committed_job s) = n" "n \<le> UNASSIGNED"
  shows "(\<forall>w<n. match_job_by_worker s' ! w = match_job_by_worker s ! w
              \<or> (match_job_by_worker s' ! w < n
                  \<and> parent_worker_by_committed_job s ! (match_job_by_worker s' ! w) = w)) \<and>
         (\<forall>j<n. match_worker_by_job s' ! j = UNASSIGNED \<longrightarrow> match_worker_by_job s ! j = UNASSIGNED)"
  using assms
proof (induction fuel arbitrary: s pw cj)
  case 0
  then show ?case by simp
next
  case (Suc fuel)
  note len = Suc.prems(3,4,5) and le = Suc.prems(6)
  have pw: "pw < n" and cj: "cj < n"
    using Suc.prems(1) len by (auto split: if_splits)
  have pwun: "pw \<noteq> UNASSIGNED" using pw le by simp
  let ?t = "match_job_by_worker s ! pw"
  let ?s1 = "match pw cj s"
  have m1: "match_job_by_worker ?s1 ! w = (if w = pw then cj else match_job_by_worker s ! w)"
    if "w < n" for w
    using that pw len by (simp add: nth_list_update)
  have w1: "match_worker_by_job ?s1 ! j = (if j = cj then pw else match_worker_by_job s ! j)"
    if "j < n" for j
    using that cj len by (simp add: nth_list_update)
  show ?case
  proof (cases "?t = UNASSIGNED")
    case True
    then have s': "s' = ?s1"
      using Suc.prems(1) pw cj len by (simp add: augment_step_def)
    show ?thesis
      unfolding s' using m1 w1 cj pwun Suc.prems(2) by auto
  next
    case False
    have tn: "?t < n"
      using Suc.prems(1) pw cj len False by (simp add: augment_step_def split: if_splits)
    have rec: "augment fuel ?s1 (parent_worker_by_committed_job ?s1 ! ?t) ?t = Some (Inr s')"
      using Suc.prems(1) pw cj len False by (simp add: augment_step_def split: if_splits)
    have ih: "(\<forall>w<n. match_job_by_worker s' ! w = match_job_by_worker ?s1 ! w
              \<or> (match_job_by_worker s' ! w < n
                  \<and> parent_worker_by_committed_job ?s1 ! (match_job_by_worker s' ! w) = w)) \<and>
         (\<forall>j<n. match_worker_by_job s' ! j = UNASSIGNED \<longrightarrow> match_worker_by_job ?s1 ! j = UNASSIGNED)"
      by (rule Suc.IH[OF rec]) (use len le in simp_all)
    show ?thesis
    proof (intro conjI allI impI)
      fix w assume w: "w < n"
      show "match_job_by_worker s' ! w = match_job_by_worker s ! w
              \<or> (match_job_by_worker s' ! w < n
                  \<and> parent_worker_by_committed_job s ! (match_job_by_worker s' ! w) = w)"
        using ih w m1[OF w] cj Suc.prems(2) by (auto split: if_splits)
    next
      fix j assume j: "j < n" and u: "match_worker_by_job s' ! j = UNASSIGNED"
      then have "match_worker_by_job ?s1 ! j = UNASSIGNED" using ih by blast
      then show "match_worker_by_job s ! j = UNASSIGNED"
        using w1[OF j] pwun by (auto split: if_splits)
    qed
  qed
qed

text \<open>While some worker has no job, some job has no worker.\<close>

lemma unmatched_job_exists:
  assumes inv: "matching_inv s" and le: "dim s \<le> UNASSIGNED"
    and r: "r < dim s" "match_job_by_worker s ! r = UNASSIGNED"
  shows "\<exists>j<dim s. match_worker_by_job s ! j = UNASSIGNED"
proof (rule ccontr)
  assume "\<not> ?thesis"
  then have all: "\<And>j. j < dim s \<Longrightarrow> match_worker_by_job s ! j \<noteq> UNASSIGNED" by blast
  let ?g = "\<lambda>j. match_worker_by_job s ! j"
  have g: "?g j < dim s" "match_job_by_worker s ! ?g j = j" if "j < dim s" for j
    using inv all[OF that] that unfolding matching_inv_def by blast+
  have "inj_on ?g {0..<dim s}"
    by (rule inj_on_inverseI[where g = "\<lambda>w. match_job_by_worker s ! w"]) (simp add: g(2))
  moreover have "?g ` {0..<dim s} \<subseteq> {0..<dim s} - {r}"
  proof
    fix w assume "w \<in> ?g ` {0..<dim s}"
    then obtain j where j: "j < dim s" "w = ?g j" by auto
    have "j \<noteq> UNASSIGNED" using j(1) le by simp
    then have "w \<noteq> r" using g(2)[OF j(1)] r(2) j(2) by auto
    then show "w \<in> {0..<dim s} - {r}" using g(1)[OF j(1)] j(2) by simp
  qed
  ultimately have "card {0..<dim s} \<le> card ({0..<dim s} - {r})"
    by (intro card_inj_on_le[of ?g]) simp_all
  then show False using r(1) by simp
qed

text \<open>The scan for the job of least slack finds one.\<close>

lemma chosen_job_valid:
  assumes pi: "phase_inv s" and lb: "labels_bounded s"
  shows "chosen_job s < dim s"
proof -
  from pi have tr: "tree_inv s" and rec: "slack_records s"
    unfolding phase_inv_def by blast+
  note tf = tree_inv_facts[OF tr]
  note len = wf_stateD[OF tf(1)]
  from tf(6) obtain r where r: "r < dim s" "match_job_by_worker s ! r = UNASSIGNED" by blast
  from unmatched_job_exists[OF tf(2) len(1) r]
  obtain j where j: "j < dim s" "match_worker_by_job s ! j = UNASSIGNED" by blast
  have pj: "parent_worker_by_committed_job s ! j = UNASSIGNED"
    using tf(4)[OF j(1)] j(2) by blast
  let ?w = "min_slack_worker_by_job s ! j"
  have w: "?w < dim s" using tf(3)[OF j(1)] by simp
  have "min_slack_by_job s ! j = slack s ?w j"
    using rec j(1) pj unfolding slack_records_def by blast
  also have "\<dots> \<le> at2 (cost_matrix s) ?w j"
  proof -
    have "0 \<le> label_by_worker s ! ?w" "0 \<le> label_by_job s ! j"
      using lb w j unfolding labels_bounded_def by blast+
    then show ?thesis unfolding slack_def by linarith
  qed
  also have "\<dots> < POSITIVE_INFINITY"
    using lb w j(1) unfolding labels_bounded_def by blast
  finally have "min_slack_by_job s ! j < POSITIVE_INFINITY" .
  then show ?thesis
    using select_min_slack_props[OF len(1)] j(1) pj by (metis leD)
qed

lemma phase_inv_walk:
  assumes pi: "phase_inv s" and j: "chosen_job s < dim s"
    and m: "match_worker_by_job s ! chosen_job s = UNASSIGNED"
    and aug: "augment fuel0 (commit_job s)
            (parent_worker_by_committed_job (commit_job s) ! chosen_job s) (chosen_job s)
          = Some (Inr s')"
  shows "dual_feasible s'" "matched_tight s'" "labels_bounded s \<Longrightarrow> labels_bounded s'"
proof -
  let ?n = "dim s"
  let ?s2 = "commit_job s"
  from pi have tr: "tree_inv s" unfolding phase_inv_def by blast
  note tf = tree_inv_facts[OF tr]
  note wf = tf(1)
  have wf2: "wf_state ?s2" by (rule wf_state_commit_job[OF wf])
  note fr = commit_job_frame[OF wf]
  note len2 = wf_stateD[OF wf2]
  note c2 = phase_inv_commit_job[OF pi j]
  have inv2: "matching_inv ?s2"
    using tf(2) by (simp add: matching_inv_cong[of ?s2 s] fr)
  have d2: "dim ?s2 = ?n" by (simp add: fr)
  have winv: "walk_inv ?s2 (chosen_job s)"
    by (rule matching_inv_walk_inv[OF inv2 _ _ len2(1)]) (simp_all add: fr j m)
  from augment_sound[OF aug winv len2(7,8,1)]
  have sb: "same_but_matching ?s2 s'" by simp
  note sf = same_but_matching_fields[OF sb]
  have sl: "slack s' = slack ?s2" by (rule same_but_matching_slack[OF sb])
  have d': "dim s' = ?n" using sf(3) d2 by simp
  from augment_pairs[OF aug refl len2(7,8,9,1)]
  have pairs: "\<And>w. w < ?n \<Longrightarrow> match_job_by_worker s' ! w = match_job_by_worker ?s2 ! w
              \<or> (match_job_by_worker s' ! w < ?n
                  \<and> parent_worker_by_committed_job ?s2 ! (match_job_by_worker s' ! w) = w)"
    and free: "\<And>j. j < ?n \<Longrightarrow> match_worker_by_job s' ! j = UNASSIGNED
                  \<Longrightarrow> match_worker_by_job ?s2 ! j = UNASSIGNED"
    unfolding d2 by blast+
  show "dual_feasible s'"
    using c2(1) unfolding dual_feasible_def sl d' d2 .
  show "matched_tight s'"
    unfolding matched_tight_def sl d'
  proof (intro allI impI)
    fix w assume w: "w < ?n" and mw: "match_job_by_worker s' ! w \<noteq> UNASSIGNED"
    have wun: "w \<noteq> UNASSIGNED" using w wf_stateD(1)[OF wf] by simp
    from pairs[OF w] show "slack ?s2 w (match_job_by_worker s' ! w) = 0"
    proof
      assume e: "match_job_by_worker s' ! w = match_job_by_worker ?s2 ! w"
      show ?thesis
        using c2(2) w mw unfolding matched_tight_def d2 e by blast
    next
      assume e: "match_job_by_worker s' ! w < ?n
                  \<and> parent_worker_by_committed_job ?s2 ! (match_job_by_worker s' ! w) = w"
      then show ?thesis
        using c2(4) wun unfolding tree_tight_def d2 by metis
    qed
  qed
  show "labels_bounded s'" if lb: "labels_bounded s"
  proof -
    have lb2: "labels_bounded ?s2" by (rule labels_bounded_commit_job[OF pi lb])
    show ?thesis
      using lb2 free unfolding labels_bounded_def d' d2 sf by blast
  qed
qed

lemma augment_mono:
  assumes "augment fuel s pw cj = Some r" and "fuel \<le> fuel'"
  shows "augment fuel' s pw cj = Some r"
  using assms
proof (induction fuel arbitrary: s pw cj fuel')
  case 0
  then show ?case by simp
next
  case (Suc fuel)
  from Suc.prems(2) obtain k where k: "fuel' = Suc k" "fuel \<le> k"
    by (cases fuel') simp_all
  show ?case
  proof (cases "pw < length (match_job_by_worker s) \<and> cj < length (match_worker_by_job s)
      \<and> match_job_by_worker s ! pw \<noteq> UNASSIGNED
      \<and> match_job_by_worker s ! pw < length (parent_worker_by_committed_job (match pw cj s))")
    case True
    then have "augment fuel (match pw cj s)
          (parent_worker_by_committed_job (match pw cj s) ! (match_job_by_worker s ! pw))
          (match_job_by_worker s ! pw) = Some r"
      using Suc.prems(1) by (simp add: augment_step_def)
    from Suc.IH[OF this k(2)] show ?thesis
      unfolding k(1) using True by (simp add: augment_step_def)
  next
    case False
    then show ?thesis
      using Suc.prems(1) unfolding k(1) by (auto simp: augment_step_def split: if_splits)
  qed
qed

text \<open>A phase that ends does so without an index out of range, and leaves the labels
  feasible and the matched pairs tight.\<close>

lemma execute_phase_sound:
  assumes "phase_inv s" and "labels_bounded s" and "execute_phase fuel0 fuel s = Some r"
  shows "\<exists>s'. r = Inr s' \<and> dual_feasible s' \<and> matched_tight s' \<and> labels_bounded s'"
  using assms
proof (induction fuel arbitrary: s)
  case 0
  then show ?case by simp
next
  case (Suc fuel)
  note pi = Suc.prems(1) and lb = Suc.prems(2)
  from pi have tr: "tree_inv s" unfolding phase_inv_def by blast
  note tf = tree_inv_facts[OF tr]
  note wf = tf(1) and inv = tf(2)
  note len = wf_stateD[OF wf]
  note fr = commit_job_frame[OF wf]
  have lenp: "length (parent_worker_by_committed_job (relabel s)) = dim s"
    using wf_state_relabel[OF wf] by (simp add: wf_state_def relabel_frame[OF wf])
  have j: "chosen_job s < dim s" by (rule chosen_job_valid[OF pi lb])
  show ?case
  proof (cases "match_worker_by_job s ! chosen_job s = UNASSIGNED")
    case True
    have aug: "augment fuel0 (commit_job s)
            (parent_worker_by_committed_job (commit_job s) ! chosen_job s) (chosen_job s)
          = Some r"
      using Suc.prems(3) unfolding execute_phase_Suc lenp using j True by (simp add: fr)
    from walk_from_tree_terminates[OF tr j order_refl]
    obtain s' where big: "augment (dim s) (commit_job s)
            (parent_worker_by_committed_job (commit_job s) ! chosen_job s) (chosen_job s)
          = Some (Inr s')" by blast
    have "r = Inr s'"
    proof (cases "fuel0 \<le> dim s")
      case True
      from augment_mono[OF aug True] big show ?thesis by simp
    next
      case False
      then have "dim s \<le> fuel0" by simp
      from augment_mono[OF big this] aug show ?thesis by simp
    qed
    moreover note w = phase_inv_walk[OF pi j True aug[unfolded \<open>r = Inr s'\<close>]]
    ultimately show ?thesis using w(1,2) w(3)[OF lb] by blast
  next
    case False
    let ?v = "match_worker_by_job s ! chosen_job s"
    have v: "?v < dim s" using inv j False unfolding matching_inv_def by blast
    note ps = phase_inv_step[OF pi j False]
    have "execute_phase fuel0 (Suc fuel) s
        = execute_phase fuel0 fuel (commit_worker ?v (commit_job s))"
      unfolding execute_phase_Suc lenp using j False v len(10) by (simp add: fr)
    then have "execute_phase fuel0 fuel (commit_worker ?v (commit_job s)) = Some r"
      using Suc.prems(3) by simp
    from Suc.IH[OF ps(1) ps(2)[OF lb] this] show ?thesis .
  qed
qed

lemma execute_phase_returns:
  assumes pi: "phase_inv s" and lb: "labels_bounded s"
    and fuel: "card (uncommitted_jobs s) < fuel" "dim s \<le> fuel0"
  shows "\<exists>s'. execute_phase fuel0 fuel s = Some (Inr s')
           \<and> dual_feasible s' \<and> matched_tight s' \<and> labels_bounded s'"
proof -
  from pi have tr: "tree_inv s" unfolding phase_inv_def by blast
  from execute_phase_terminates[OF tr fuel]
  obtain r where r: "execute_phase fuel0 fuel s = Some r" by blast
  from execute_phase_sound[OF pi lb r] r show ?thesis by blast
qed



















section \<open>The returned assignment is a cheapest one\<close>











section \<open>The worked example, evaluated\<close>

lemma replicate_numeral_eval: "replicate (numeral k) x = x # replicate (pred_numeral k) x"
  by (simp add: numeral_eq_Suc)

lemma list_update_numeral_eval: "(x # xs)[numeral k := y] = x # xs[pred_numeral k := y]"
  by (simp add: numeral_eq_Suc)

lemmas eval_simps = upt_rec replicate_numeral_eval list_update_numeral_eval

lemmas example_defs =
  example_matrix_def example_prepared_def example_walk_start_def example_final_def fuel3_def

lemma wf_example_matrix: "wf_multiarray2 example_matrix"
  by (simp add: wf_multiarray2_def example_matrix_def matrix_of_def UINT32_MAX_VALUE_def)

lemma example_prepare:
  "prepare (ind_reduce_min zero_storage) (Hungarian example_matrix zero_storage) = example_prepared"
  by (simp add: example_defs model_defs eval_simps)

lemma example_walk_start:
  "commit_job (commit_worker 0 (commit_job (initialize_phase 1 example_prepared)))
     = example_walk_start"
  by (simp add: example_defs model_defs eval_simps commit_job_def relabel_def chosen_job_def
        chosen_worker_def chosen_slack_def)

lemma example_phase:
  "execute_phase fuel3 fuel3 (initialize_phase 1 example_prepared) = Some (Inr example_final)"
  by (simp add: example_defs model_defs eval_simps)



lemma wf_example_prepared: "wf_state example_prepared \<and> matching_inv example_prepared"
  using prepare_matching[OF wf_example_matrix, of "ind_reduce_min zero_storage" zero_storage]
  by (simp add: example_prepare)


















text \<open>The run on \<open>[[0, 0], [0, 1]]\<close> when the cell of \<^verbatim>\<open>label_by_worker_[1]\<close> holds \<open>1\<close>: worker 1
  gets job 1, at cost 1, although giving it job 0 costs nothing.\<close>

lemma stale_labels_execute:
  "execute fuel3 stale_storage (Hungarian (matrix_of 2 2 [0, 0, 0, 1]) stale_storage)
     = Some (Inr [0, 1])"
  by (simp add: fuel3_def model_defs eval_simps)

section \<open>The claims\<close>

subsection \<open>C5: the initial labels\<close>


subsection \<open>C2: dual feasibility\<close>


subsection \<open>C6: construction\<close>




subsection \<open>C9: reduce\<close>





subsection \<open>C3: a phase adds one pair\<close>

text \<open>
  Claim C3. Every completed phase (\<^verbatim>\<open>initialize_phase\<close> on an unmatched worker, then
  \<^verbatim>\<open>execute_phase\<close>) increases the number of matched pairs by exactly one, and no worker
  matched before the phase is unmatched after it. The number of pairs is the number of
  entries of \<^verbatim>\<open>match_job_by_worker_\<close> other than \<^verbatim>\<open>UNASSIGNED\<close>.
\<close>

theorem phase_adds_one_pair:
  assumes "wf_state s" and "matching_inv s"
    and "w < dim s" and "match_job_by_worker s ! w = UNASSIGNED"
    and "execute_phase fuel0 fuel (initialize_phase w s) = Some (Inr s')"
  shows "matching_size s' = matching_size s + 1 \<and>
         (\<forall>v<dim s. match_job_by_worker s ! v \<noteq> UNASSIGNED \<longrightarrow>
                    match_job_by_worker s' ! v \<noteq> UNASSIGNED)"
proof -
  let ?s1 = "initialize_phase w s"
  note fr = initialize_phase_frame[OF assms(1)]
  have wf1: "wf_state ?s1" by (rule wf_state_initialize_phase[OF assms(1)])
  have inv1: "matching_inv ?s1"
    using assms(2) by (simp add: matching_inv_cong[of ?s1 s] fr)
  from execute_phase_matching[OF assms(5) wf1 inv1]
  have r: "wf_state s'" "one_more_matched ?s1 s'" "phase_frame ?s1 s'" by simp_all
  have d: "dim s' = dim ?s1" using r(3) by (simp add: phase_frame_def)
  have "matching_size s' = matching_size ?s1 + 1 \<and>
         (\<forall>v<dim ?s1. match_job_by_worker ?s1 ! v \<noteq> UNASSIGNED \<longrightarrow>
                    match_job_by_worker s' ! v \<noteq> UNASSIGNED)"
    by (rule one_more_matched_size[OF r(2)]) (use r(1) wf1 d in \<open>simp_all add: wf_state_def\<close>)
  then show ?thesis
    by (simp add: fr matching_size_def)
qed

theorem phase_adds_one_pair_witness:
  "wf_state example_prepared \<and> matching_inv example_prepared \<and>
   1 < dim example_prepared \<and> match_job_by_worker example_prepared ! 1 = UNASSIGNED \<and>
   execute_phase fuel3 fuel3 (initialize_phase 1 example_prepared) = Some (Inr example_final) \<and>
   matching_size example_final = matching_size example_prepared + 1 \<and>
   match_job_by_worker example_final ! 0 \<noteq> UNASSIGNED"
proof -
  have wf: "wf_state example_prepared" and inv: "matching_inv example_prepared"
    using wf_example_prepared by simp_all
  have d: "1 < dim example_prepared" and un: "match_job_by_worker example_prepared ! 1 = UNASSIGNED"
    and m0: "match_job_by_worker example_prepared ! 0 \<noteq> UNASSIGNED"
    by (simp_all add: example_defs UNASSIGNED_def)
  from phase_adds_one_pair[OF wf inv d un example_phase] m0 d
  have "matching_size example_final = matching_size example_prepared + 1"
    "match_job_by_worker example_final ! 0 \<noteq> UNASSIGNED"
    by simp_all
  then show ?thesis
    using wf inv d un example_phase by simp
qed

subsection \<open>C4: the shape of the result\<close>



subsection \<open>C8: the two match vectors\<close>

text \<open>
  Claim C8, as stated: at all times during \<^verbatim>\<open>execute\<close> the two match vectors are mutual
  inverses on their non-sentinel entries. Inside the walk that replays an augmenting
  path they are not: \<^verbatim>\<open>match(parent_worker, committed_job)\<close> gives the worker its new job
  while the worker's previous job still points at it, until the next pass re-matches that
  job. In the example the phase rooted at worker 1 starts its walk at worker 0 and job 1;
  after the first \<^verbatim>\<open>match\<close> the vectors are \<open>[1, UNASSIGNED]\<close> and \<open>[0, 0]\<close>: job 0 still
  names worker 0, whose job is now 1.
\<close>

theorem inverses_broken_inside_walk:
  "execute_phase fuel3 fuel3
     (initialize_phase 1
        (prepare (ind_reduce_min zero_storage) (Hungarian example_matrix zero_storage)))
     = augment fuel3 example_walk_start 0 1 \<and>
   match_job_by_worker (fst (augment_step example_walk_start 0 1)) = [1, UNASSIGNED] \<and>
   match_worker_by_job (fst (augment_step example_walk_start 0 1)) = [0, 0] \<and>
   \<not> mutual_inverses (fst (augment_step example_walk_start 0 1))"
proof -
  have run: "execute_phase fuel3 fuel3 (initialize_phase 1 example_prepared)
      = augment fuel3 example_walk_start 0 1"
    unfolding example_phase by (simp add: example_defs model_defs eval_simps)
  have a: "match_job_by_worker (fst (augment_step example_walk_start 0 1)) = [1, UNASSIGNED]"
    and b: "match_worker_by_job (fst (augment_step example_walk_start 0 1)) = [0, 0]"
    and d: "dim (fst (augment_step example_walk_start 0 1)) = 2"
    by (simp_all add: example_defs augment_step_def match_def)
  have "\<not> mutual_inverses (fst (augment_step example_walk_start 0 1))"
  proof
    assume "mutual_inverses (fst (augment_step example_walk_start 0 1))"
    then have "(match_job_by_worker (fst (augment_step example_walk_start 0 1)) ! 0 = 0)
        = (match_worker_by_job (fst (augment_step example_walk_start 0 1)) ! 0 = 0)"
      unfolding mutual_inverses_def d by simp
    then show False unfolding a b by simp
  qed
  then show ?thesis
    using run a b by (simp add: example_prepare)
qed

text \<open>
  Claim C8, amended. Between phases, that is after \<^verbatim>\<open>greedy_match\<close> and after every
  completed \<^verbatim>\<open>execute_phase\<close> (so also when \<^verbatim>\<open>execute\<close> copies out its result), the two
  vectors are mutual inverses on their non-sentinel entries: for all \<open>w, j < n\<close>,
  \<^verbatim>\<open>match_job_by_worker_[w] == j\<close> if and only if \<^verbatim>\<open>match_worker_by_job_[j] == w\<close>, and every
  entry is \<^verbatim>\<open>UNASSIGNED\<close> or an index below \<open>n\<close>.
\<close>

theorem inverses_between_phases:
  assumes "wf_multiarray2 cm" and "phase_boundary cm ind s"
  shows "mutual_inverses s \<and>
         (\<forall>w<dim s. match_job_by_worker s ! w = UNASSIGNED \<or> match_job_by_worker s ! w < dim s) \<and>
         (\<forall>j<dim s. match_worker_by_job s ! j = UNASSIGNED \<or> match_worker_by_job s ! j < dim s)"
proof -
  from phase_boundary_matching[OF assms(2,1)]
  have wf: "wf_state s" and inv: "matching_inv s" by simp_all
  have "mutual_inverses s"
    by (rule matching_inv_mutual_inverses[OF inv]) (use wf in \<open>simp add: wf_state_def\<close>)
  then show ?thesis
    using inv unfolding matching_inv_def by blast
qed

theorem inverses_between_phases_witness:
  "wf_multiarray2 example_matrix \<and>
   phase_boundary example_matrix zero_storage example_final \<and>
   mutual_inverses example_final \<and>
   match_job_by_worker example_final = [1, 0] \<and> match_worker_by_job example_final = [1, 0]"
proof -
  have b0: "phase_boundary example_matrix zero_storage example_prepared"
    using after_greedy_match[of example_matrix zero_storage] by (simp add: example_prepare)
  have f: "fetch_unmatched_worker example_prepared = 1"
    by (simp add: example_defs fetch_unmatched_worker_def fetch_from.simps UNASSIGNED_def)
  have d: "fetch_unmatched_worker example_prepared < dim example_prepared"
    unfolding f by (simp add: example_defs)
  have b1: "phase_boundary example_matrix zero_storage example_final"
    by (rule after_phase[OF b0 d]) (unfold f, rule example_phase)
  from inverses_between_phases[OF wf_example_matrix b1]
  have "mutual_inverses example_final" by simp
  then show ?thesis
    using wf_example_matrix b1 by (simp add: example_defs)
qed


subsection \<open>C7: termination\<close>




subsection \<open>C10: the selected indices\<close>




subsection \<open>C1: the returned assignment is a cheapest one\<close>




end
